theory Spec2Isabelle
  imports Main "HOL-Library.AList"
begin

section \<open>Strings, numbers and percent-encoding\<close>

text \<open>
  A JavaScript string is modelled by the list of the bytes of its UTF-8 encoding
  (\<^typ>\<open>string\<close>); for ASCII text a byte is a character. Both encoders of the
  program work on the UTF-8 bytes of a well-formed string, so the byte view is exact
  for them.
\<close>

text \<open>\<^verbatim>\<open>`${n}`\<close> for a non-negative integer \<open>n\<close>: its decimal digits.\<close>

function string_of_nat :: "nat \<Rightarrow> string" where
  "string_of_nat n =
     (if n < 10 then [''0123456789'' ! n]
      else string_of_nat (n div 10) @ [''0123456789'' ! (n mod 10)])"
  by pat_completeness auto
termination
  by (relation "measure id") auto

declare string_of_nat.simps [simp del]

text \<open>\<^verbatim>\<open>xs.join(sep)\<close>\<close>

fun join :: "string \<Rightarrow> string list \<Rightarrow> string" where
  "join sep [] = []"
| "join sep [x] = x"
| "join sep (x # y # ys) = x @ sep @ join sep (y # ys)"

definition is_alnum :: "char \<Rightarrow> bool" where
  "is_alnum c =
     (let n = (of_char c :: nat)
      in (48 \<le> n \<and> n \<le> 57) \<or> (65 \<le> n \<and> n \<le> 90) \<or> (97 \<le> n \<and> n \<le> 122))"

definition hex_digit :: "nat \<Rightarrow> char" where
  "hex_digit d = ''0123456789ABCDEF'' ! (d mod 16)"

text \<open>The escape \<open>%XX\<close> of one byte, two upper-case hexadecimal digits.\<close>

definition percent_byte :: "char \<Rightarrow> string" where
  "percent_byte c =
     [CHR ''%'', hex_digit ((of_char c :: nat) div 16), hex_digit ((of_char c :: nat) mod 16)]"

text \<open>
  \<^verbatim>\<open>encodeURIComponent\<close> (ECMAScript): every byte is escaped except the letters, the
  digits and \<^verbatim>\<open>- _ . ! ~ * ' ( )\<close>.
\<close>

definition uri_unreserved :: "char \<Rightarrow> bool" where
  "uri_unreserved c = (is_alnum c \<or> c \<in> set ''-_.!~*'' \<or> c = CHR 0x27 \<or> c \<in> set ''()'')"

definition encodeURIComponent :: "string \<Rightarrow> string" where
  "encodeURIComponent str = concat (map (\<lambda>c. if uri_unreserved c then [c] else percent_byte c) str)"

text \<open>\<^verbatim>\<open>n.toString(16)\<close>: lower-case hexadecimal digits, no padding.\<close>

function toString16 :: "nat \<Rightarrow> string" where
  "toString16 n =
     (if n < 16 then [''0123456789abcdef'' ! n]
      else toString16 (n div 16) @ [''0123456789abcdef'' ! (n mod 16)])"
  by pat_completeness auto
termination
  by (relation "measure id") auto

declare toString16.simps [simp del]

text \<open>\<^verbatim>\<open>s.toUpperCase()\<close> on ASCII text (here: on hexadecimal digits).\<close>

definition toUpperCase :: "string \<Rightarrow> string" where
  "toUpperCase s =
     map (\<lambda>c. let n = (of_char c :: nat)
              in if 97 \<le> n \<and> n \<le> 122 then ''ABCDEFGHIJKLMNOPQRSTUVWXYZ'' ! (n - 97) else c) s"

text \<open>
  \<^verbatim>\<open>
  private encodeURIComponentSafe(str: string): string {
    return encodeURIComponent(str).replace(/[!'()*]/g, (c) => {
      return '%' + c.charCodeAt(0).toString(16).toUpperCase();
    });
  }
  \<close>
\<close>

definition encodeURIComponentSafe :: "string \<Rightarrow> string" where
  "encodeURIComponentSafe str =
     concat (map (\<lambda>c. if c \<in> set ''!'' \<or> c = CHR 0x27 \<or> c \<in> set ''()*''
                       then ''%'' @ toUpperCase (toString16 (of_char c))
                       else [c])
                 (encodeURIComponent str))"

text \<open>
  \<^verbatim>\<open>URLSearchParams.prototype.toString\<close> (WHATWG URL, the
  \<^verbatim>\<open>application/x-www-form-urlencoded\<close> serialiser): a space becomes \<open>+\<close>; the letters, the
  digits and \<^verbatim>\<open>* - . _\<close> are left as they are; every other byte is escaped.
\<close>

definition urlencoded_byte :: "char \<Rightarrow> string" where
  "urlencoded_byte c =
     (if c = CHR '' '' then ''+''
      else if is_alnum c \<or> c \<in> set ''*-._'' then [c]
      else percent_byte c)"

definition urlencoded :: "string \<Rightarrow> string" where
  "urlencoded s = concat (map urlencoded_byte s)"

type_synonym URLSearchParams = "(string \<times> string) list"

definition append_param :: "string \<Rightarrow> string \<Rightarrow> URLSearchParams \<Rightarrow> URLSearchParams" where
  "append_param k v ps = ps @ [(k, v)]"

definition params_toString :: "URLSearchParams \<Rightarrow> string" where
  "params_toString ps = join ''&'' (map (\<lambda>(k, v). urlencoded k @ ''='' @ urlencoded v) ps)"


section \<open>The callback server (\<^verbatim>\<open>callback-server.ts\<close>)\<close>

subsection \<open>Values\<close>

text \<open>
  A thrown or rejected value: \<open>Error msg\<close> is \<^verbatim>\<open>new Error(msg)\<close> of the program,
  \<open>SystemError\<close> an error object made by the platform (the HTTP server, the child process).
\<close>

datatype error = Error string | SystemError string

text \<open>
  A value of \<^verbatim>\<open>req.query\<close> as Express parses it: a string, an array (a repeated
  parameter) or a nested object. A \<open>query\<close> is \<^verbatim>\<open>Object.entries(req.query)\<close>.
\<close>

datatype query_value =
    QString string
  | QArray "query_value list"
  | QObject "(string \<times> query_value) list"

type_synonym query = "(string \<times> query_value) list"

text \<open>JavaScript truthiness of an optional query value: every object is truthy, the empty string is not.\<close>

fun truthy :: "query_value option \<Rightarrow> bool" where
  "truthy None = False"
| "truthy (Some (QString s)) = (s \<noteq> [])"
| "truthy (Some (QArray xs)) = True"
| "truthy (Some (QObject kvs)) = True"

text \<open>\<^verbatim>\<open>String(v)\<close>, as \<^verbatim>\<open>new Error(v)\<close> applies it to its message.\<close>

fun js_toString :: "query_value \<Rightarrow> string" where
  "js_toString (QString s) = s"
| "js_toString (QArray xs) = join '','' (map js_toString xs)"
| "js_toString (QObject kvs) = ''[object Object]''"

text \<open>
  \<^verbatim>\<open>interface CallbackResponse { success: boolean; data?: Record<string, string>; error?: string }\<close>.
  An object with string keys is an association list, a property assignment is
  \<^const>\<open>AList.update\<close>. The type of \<open>error\<close> is what the handler can store at run time.
\<close>

record CallbackResponse =
  success :: bool
  data :: "(string \<times> string) list option"
  error :: "query_value option"

datatype settlement = Pending | Resolved CallbackResponse | Rejected error

text \<open>
  \<^verbatim>\<open>interface PendingRequest { resolve; reject; timeout }\<close>: \<open>resolve\<close> and \<open>reject\<close> are the
  two settling functions of one promise, held here as the index of that promise;
  \<open>timeout\<close> is the identifier of a timer.
\<close>

record PendingRequest =
  promise :: nat
  timeout :: nat

text \<open>
  A pending \<^verbatim>\<open>setTimeout\<close> of \<open>registerRequest\<close>: when it is due, and the \<open>requestId\<close> and
  \<open>reject\<close> its callback has captured.
\<close>

record timer =
  tid :: nat
  due :: nat
  for_request :: string
  for_promise :: nat

datatype listener = NotCreated | Listening | Closed

datatype settled_by = BySuccess | ByError | ByCancel | ByTimeout | ByStop

text \<open>
  The fields of the class (\<open>port\<close>, \<open>server\<close>, \<open>pendingRequests\<close>) and the part of the
  runtime they refer to: the promises made so far, the live timers, the clock in
  milliseconds. \<open>calls\<close> is a log of every call of a promise's \<open>resolve\<close> or \<open>reject\<close>,
  kept to count them: a promise itself ignores every call after the first.
\<close>

record correlator =
  port :: nat
  server :: listener
  pendingRequests :: "(string \<times> PendingRequest) list"
  promises :: "settlement list"
  timers :: "timer list"
  next_timer :: nat
  now :: nat
  calls :: "(nat \<times> settled_by) list"

definition REQUEST_TIMEOUT :: nat where
  "REQUEST_TIMEOUT = 30000"

definition new_CallbackServer :: correlator where
  "new_CallbackServer =
     \<lparr>port = 0, server = NotCreated, pendingRequests = [], promises = [], timers = [],
      next_timer = 0, now = 0, calls = []\<rparr>"

subsection \<open>Promises and timers\<close>

definition settle :: "nat \<Rightarrow> settlement \<Rightarrow> settled_by \<Rightarrow> correlator \<Rightarrow> correlator" where
  "settle p v src s =
     (let s' = s\<lparr>calls := calls s @ [(p, src)]\<rparr>
      in if p < length (promises s) \<and> promises s ! p = Pending
         then s'\<lparr>promises := (promises s)[p := v]\<rparr>
         else s')"

definition resolve :: "nat \<Rightarrow> CallbackResponse \<Rightarrow> settled_by \<Rightarrow> correlator \<Rightarrow> correlator" where
  "resolve p r src s = settle p (Resolved r) src s"

definition reject :: "nat \<Rightarrow> error \<Rightarrow> settled_by \<Rightarrow> correlator \<Rightarrow> correlator" where
  "reject p e src s = settle p (Rejected e) src s"

definition clearTimeout :: "nat \<Rightarrow> correlator \<Rightarrow> correlator" where
  "clearTimeout t s = s\<lparr>timers := filter (\<lambda>x. tid x \<noteq> t) (timers s)\<rparr>"

subsection \<open>The routes\<close>

record http_response =
  status :: nat
  body :: string

definition OK :: http_response where
  "OK = \<lparr>status = 200, body = ''OK''\<rparr>"

text \<open>
  \<^verbatim>\<open>
  const data: Record<string, string> = {};
  for (const [key, value] of Object.entries(req.query)) {
    if (typeof value === 'string') { data[key] = value; }
  }
  \<close>
  (The keys are ordinary property names; \<^verbatim>\<open>__proto__\<close> and the like are not modelled.)
\<close>

fun collect :: "query \<Rightarrow> (string \<times> string) list \<Rightarrow> (string \<times> string) list" where
  "collect [] d = d"
| "collect ((key, QString v) # rest) d = collect rest (AList.update key v d)"
| "collect ((key, QArray xs) # rest) d = collect rest d"
| "collect ((key, QObject kvs) # rest) d = collect rest d"

definition get_x_success :: "string \<Rightarrow> query \<Rightarrow> correlator \<Rightarrow> http_response \<times> correlator" where
  "get_x_success requestId q s =
     (case map_of (pendingRequests s) requestId of
        Some pending \<Rightarrow>
          (let s1 = clearTimeout (timeout pending) s;
               s2 = s1\<lparr>pendingRequests := AList.delete requestId (pendingRequests s1)\<rparr>;
               d = collect q []
           in (OK, resolve (promise pending) \<lparr>success = True, data = Some d, error = None\<rparr> BySuccess s2))
      | None \<Rightarrow> (OK, s))"

text \<open>\<^verbatim>\<open>(req.query.error as string) || 'Unknown error'\<close>\<close>

definition error_or_unknown :: "query \<Rightarrow> query_value" where
  "error_or_unknown q =
     (if truthy (map_of q ''error'') then the (map_of q ''error'') else QString ''Unknown error'')"

definition get_x_error :: "string \<Rightarrow> query \<Rightarrow> correlator \<Rightarrow> http_response \<times> correlator" where
  "get_x_error requestId q s =
     (case map_of (pendingRequests s) requestId of
        Some pending \<Rightarrow>
          (let s1 = clearTimeout (timeout pending) s;
               s2 = s1\<lparr>pendingRequests := AList.delete requestId (pendingRequests s1)\<rparr>;
               e = error_or_unknown q
           in (OK, resolve (promise pending) \<lparr>success = False, data = None, error = Some e\<rparr> ByError s2))
      | None \<Rightarrow> (OK, s))"

definition get_x_cancel :: "string \<Rightarrow> correlator \<Rightarrow> http_response \<times> correlator" where
  "get_x_cancel requestId s =
     (case map_of (pendingRequests s) requestId of
        Some pending \<Rightarrow>
          (let s1 = clearTimeout (timeout pending) s;
               s2 = s1\<lparr>pendingRequests := AList.delete requestId (pendingRequests s1)\<rparr>
           in (OK, resolve (promise pending)
                     \<lparr>success = False, data = None, error = Some (QString ''User cancelled'')\<rparr> ByCancel s2))
      | None \<Rightarrow> (OK, s))"

subsection \<open>start, stop, getCallbackUrls, registerRequest\<close>

text \<open>
  \<open>start\<close>: \<open>got\<close> is what \<^verbatim>\<open>getPort()\<close> gives, \<open>listen_error\<close> the \<^verbatim>\<open>'error'\<close> event of
  the listener, if any.
\<close>

definition start :: "error + nat \<Rightarrow> error option \<Rightarrow> correlator \<Rightarrow> (error + nat) \<times> correlator" where
  "start got listen_error s =
     (case got of
        Inl e \<Rightarrow> (Inl e, s)
      | Inr p \<Rightarrow>
          (let s1 = s\<lparr>port := p\<rparr>
           in case listen_error of
                None \<Rightarrow> (Inr (port s1), s1\<lparr>server := Listening\<rparr>)
              | Some e \<Rightarrow> (Inl e, s1\<lparr>server := Closed\<rparr>)))"

text \<open>
  \<open>stop\<close>. \<^verbatim>\<open>server.close(cb)\<close> of Node calls \<open>cb\<close> with an error when the server is not
  listening.
\<close>

definition stop_entry :: "string \<times> PendingRequest \<Rightarrow> correlator \<Rightarrow> correlator" where
  "stop_entry entry s =
     reject (promise (snd entry)) (Error ''Server shutting down'') ByStop
       (clearTimeout (timeout (snd entry)) s)"

definition stop :: "correlator \<Rightarrow> (error + unit) \<times> correlator" where
  "stop s =
     (let s1 = fold stop_entry (pendingRequests s) s;
          s2 = s1\<lparr>pendingRequests := []\<rparr>
      in case server s2 of
           NotCreated \<Rightarrow> (Inr (), s2)
         | Listening \<Rightarrow> (Inr (), s2\<lparr>server := Closed\<rparr>)
         | Closed \<Rightarrow> (Inl (SystemError ''ERR_SERVER_NOT_RUNNING''), s2))"

definition getPort :: "correlator \<Rightarrow> nat" where
  "getPort s = port s"

record callback_urls =
  success_url :: string
  error_url :: string
  cancel_url :: string

definition getCallbackUrls :: "correlator \<Rightarrow> string \<Rightarrow> callback_urls" where
  "getCallbackUrls s requestId =
     (let baseUrl = ''http://localhost:'' @ string_of_nat (port s)
      in \<lparr>success_url = baseUrl @ ''/x-success/'' @ requestId,
          error_url = baseUrl @ ''/x-error/'' @ requestId,
          cancel_url = baseUrl @ ''/x-cancel/'' @ requestId\<rparr>)"

text \<open>The callback of the timer that \<open>registerRequest\<close> sets.\<close>

definition timeout_callback :: "timer \<Rightarrow> correlator \<Rightarrow> correlator" where
  "timeout_callback t s =
     reject (for_promise t)
       (Error (''Request '' @ for_request t @ '' timed out after '' @ string_of_nat REQUEST_TIMEOUT @ ''ms''))
       ByTimeout
       (s\<lparr>pendingRequests := AList.delete (for_request t) (pendingRequests s)\<rparr>)"

text \<open>
  \<open>registerRequest\<close> returns the new promise (its index) and the state in which the timer
  is set and the table entry stored (\<^verbatim>\<open>Map.prototype.set\<close>: an existing key keeps its
  place and gets the new value).
\<close>

definition registerRequest :: "string \<Rightarrow> correlator \<Rightarrow> nat \<times> correlator" where
  "registerRequest requestId s =
     (let p = length (promises s);
          s1 = s\<lparr>promises := promises s @ [Pending]\<rparr>;
          t = next_timer s1;
          s2 = s1\<lparr>timers := timers s1 @
                   [\<lparr>tid = t, due = now s1 + REQUEST_TIMEOUT, for_request = requestId, for_promise = p\<rparr>],
                 next_timer := t + 1\<rparr>
      in (p, s2\<lparr>pendingRequests :=
                  AList.update requestId \<lparr>promise = p, timeout = t\<rparr> (pendingRequests s2)\<rparr>))"

subsection \<open>The event loop\<close>

text \<open>A timer that fires leaves the set of live timers and its callback runs.\<close>

definition fire :: "timer \<Rightarrow> correlator \<Rightarrow> correlator" where
  "fire t s = timeout_callback t (s\<lparr>timers := filter (\<lambda>x. tid x \<noteq> tid t) (timers s)\<rparr>)"

text \<open>
  Every timer of the server has the same delay, so the live timers are in the order in
  which they are due. \<open>run_timers T\<close> fires the timers due by the time \<open>T\<close>, the earliest
  first; \<open>advance d\<close> lets \<open>d\<close> milliseconds pass.
\<close>

function run_timers :: "nat \<Rightarrow> correlator \<Rightarrow> correlator" where
  "run_timers T s =
     (case find (\<lambda>t. due t \<le> T) (timers s) of
        None \<Rightarrow> s
      | Some t \<Rightarrow> run_timers T (fire t s))"
  by pat_completeness auto
termination
  by (relation "measure (\<lambda>(T, s). length (timers s))")
     (auto simp: fire_def timeout_callback_def reject_def settle_def Let_def find_Some_iff
           intro!: length_filter_less)

declare run_timers.simps [simp del]

definition advance :: "nat \<Rightarrow> correlator \<Rightarrow> correlator" where
  "advance d s = (run_timers (now s + d) s)\<lparr>now := now s + d\<rparr>"

text \<open>What can happen to the server, one event at a time.\<close>

datatype event =
    Register string
  | GetSuccess string query
  | GetError string query
  | GetCancel string
  | Elapse nat
  | Stop

fun step :: "event \<Rightarrow> correlator \<Rightarrow> correlator" where
  "step (Register requestId) s = snd (registerRequest requestId s)"
| "step (GetSuccess requestId q) s = snd (get_x_success requestId q s)"
| "step (GetError requestId q) s = snd (get_x_error requestId q s)"
| "step (GetCancel requestId) s = snd (get_x_cancel requestId s)"
| "step (Elapse d) s = advance d s"
| "step Stop s = snd (stop s)"

definition run :: "event list \<Rightarrow> correlator \<Rightarrow> correlator" where
  "run es s = fold step es s"

section \<open>The client (\<^verbatim>\<open>drafts-client.ts\<close>)\<close>

subsection \<open>The world of an operation\<close>

text \<open>
  What the external application does with a URL handed to \<^verbatim>\<open>open\<close>: the launch fails, or
  the application is launched and then, after some milliseconds, requests one of the three
  callback URLs it was given, or never calls back.
\<close>

datatype reply = Success query | Failure query | Cancelled

datatype app_response = LaunchFails string | Calls nat reply | Silent

text \<open>
  The client works on its callback server and on its environment: \<open>randomUUID\<close> gives
  the identifiers that \<^verbatim>\<open>randomUUID()\<close> returns, in order (\<open>minted\<close> counts the calls);
  \<open>app n url\<close> is the response to the \<open>n\<close>-th URL opened; \<open>opened\<close> lists the URLs
  handed to \<^verbatim>\<open>open\<close> so far.
\<close>

record world =
  callbackServer :: correlator
  randomUUID :: "nat \<Rightarrow> string"
  minted :: nat
  app :: "nat \<Rightarrow> string \<Rightarrow> app_response"
  opened :: "string list"

record DraftsClientConfig =
  cfg_maxRetries :: "int option"
  cfg_retryDelay :: "nat option"

record DraftsClient =
  maxRetries :: int
  retryDelay :: nat

text \<open>The constructor: \<^verbatim>\<open>config.maxRetries ?? 3\<close>, \<^verbatim>\<open>config.retryDelay ?? 1000\<close>.\<close>

definition new_DraftsClient :: "DraftsClientConfig \<Rightarrow> DraftsClient" where
  "new_DraftsClient config =
     \<lparr>maxRetries = (case cfg_maxRetries config of None \<Rightarrow> 3 | Some n \<Rightarrow> n),
      retryDelay = (case cfg_retryDelay config of None \<Rightarrow> 1000 | Some d \<Rightarrow> d)\<rparr>"

subsection \<open>executeWithRetry\<close>

text \<open>
  One call of \<open>fn\<close>: when it started, when it finished, and the error it threw, if any.
  The list of the attempts is returned beside the result, to count them.
\<close>

record attempt =
  started :: nat
  finished :: nat
  failure :: "error option"

text \<open>
  \<^verbatim>\<open>
  try { return await fn(); }
  catch (error) {
    if (retries > 0) {
      await new Promise((resolve) => setTimeout(resolve, this.retryDelay));
      return this.executeWithRetry(fn, retries - 1);
    }
    throw error;
  }
  \<close>
  \<open>fn\<close> is an action on the world that returns a value (\<open>Inr\<close>), throws (\<open>Inl\<close>) or never
  returns (\<open>None\<close>). While the delay passes, the timers of the server that are due fire.
\<close>

text \<open>
  \<^verbatim>\<open>setTimeout(f, d)\<close> of Node waits \<open>d\<close> milliseconds when \<open>1 \<le> d \<le> 2147483647\<close>, and one
  millisecond for any other \<open>d\<close>. (The delay of \<open>registerRequest\<close>, 30000, is in that range.)
  \<open>sleep d\<close> is \<^verbatim>\<open>await new Promise((resolve) => setTimeout(resolve, d))\<close>.
\<close>

definition TIMEOUT_MAX :: nat where
  "TIMEOUT_MAX = 2147483647"

definition setTimeout_delay :: "nat \<Rightarrow> nat" where
  "setTimeout_delay d = (if 1 \<le> d \<and> d \<le> TIMEOUT_MAX then d else 1)"

definition sleep :: "nat \<Rightarrow> world \<Rightarrow> world" where
  "sleep d w = w\<lparr>callbackServer := advance (setTimeout_delay d) (callbackServer w)\<rparr>"

function executeWithRetry ::
  "DraftsClient \<Rightarrow> (world \<Rightarrow> ((error + 'a) \<times> world) option) \<Rightarrow> int \<Rightarrow> world
     \<Rightarrow> ((error + 'a) \<times> world \<times> attempt list) option" where
  "executeWithRetry c fn retries w =
     (case fn w of
        None \<Rightarrow> None
      | Some (Inr v, w1) \<Rightarrow>
          Some (Inr v, w1,
                [\<lparr>started = now (callbackServer w), finished = now (callbackServer w1), failure = None\<rparr>])
      | Some (Inl e, w1) \<Rightarrow>
          (let a = \<lparr>started = now (callbackServer w), finished = now (callbackServer w1),
                    failure = Some e\<rparr>
           in if retries > 0 then
                (case executeWithRetry c fn (retries - 1) (sleep (retryDelay c) w1) of
                   None \<Rightarrow> None
                 | Some (r, w2, rest) \<Rightarrow> Some (r, w2, a # rest))
              else Some (Inl e, w1, [a])))"
  by pat_completeness auto
termination
  by (relation "measure (\<lambda>(c, fn, retries, w). nat retries)") auto

declare executeWithRetry.simps [simp del]

text \<open>
  Between the end of an attempt and the start of the next one at least \<open>D\<close> milliseconds
  pass.
\<close>

fun delays_at_least :: "nat \<Rightarrow> attempt list \<Rightarrow> bool" where
  "delays_at_least D [] = True"
| "delays_at_least D [a] = True"
| "delays_at_least D (a # b # rest) = (finished a + D \<le> started b \<and> delays_at_least D (b # rest))"

subsection \<open>buildUrl and openUrl\<close>

datatype param_value = PString string | PArray "string list" | PBool bool | PUndefined

fun optional :: "string option \<Rightarrow> param_value" where
  "optional None = PUndefined"
| "optional (Some v) = PString v"

fun append_value :: "string \<Rightarrow> param_value \<Rightarrow> URLSearchParams \<Rightarrow> URLSearchParams" where
  "append_value key PUndefined ps = ps"
| "append_value key (PArray vs) ps = fold (\<lambda>v. append_param key v) vs ps"
| "append_value key (PBool b) ps = append_param key (if b then ''true'' else ''false'') ps"
| "append_value key (PString v) ps = append_param key v ps"

text \<open>\<open>buildUrl\<close> returns the URL and the request identifier it has minted.\<close>

definition buildUrl ::
  "string \<Rightarrow> (string \<times> param_value) list \<Rightarrow> world \<Rightarrow> (string \<times> string) \<times> world" where
  "buildUrl endpoint params w =
     (let requestId = randomUUID w (minted w);
          w1 = w\<lparr>minted := minted w + 1\<rparr>;
          callbacks = getCallbackUrls (callbackServer w1) requestId;
          urlParams = fold (\<lambda>(key, v). append_value key v) params [];
          urlParams = append_param ''x-success'' (success_url callbacks) urlParams;
          urlParams = append_param ''x-error'' (error_url callbacks) urlParams;
          urlParams = append_param ''x-cancel'' (cancel_url callbacks) urlParams
      in ((''drafts://x-callback-url/'' @ endpoint @ ''?'' @ params_toString urlParams, requestId), w1))"

text \<open>
  \<^verbatim>\<open>await responsePromise\<close>: a settled promise gives its value or throws its error; while
  the promise is pending the loop idles until the next timer is due and fires it. With
  no timer left, a pending promise is never settled.
\<close>

function await :: "nat \<Rightarrow> correlator \<Rightarrow> ((error + CallbackResponse) \<times> correlator) option" where
  "await p s =
     (if p < length (promises s) then
        (case promises s ! p of
           Resolved r \<Rightarrow> Some (Inr r, s)
         | Rejected e \<Rightarrow> Some (Inl e, s)
         | Pending \<Rightarrow>
             (case timers s of
                [] \<Rightarrow> None
              | t # ts \<Rightarrow> await p (fire t (s\<lparr>now := max (now s) (due t)\<rparr>))))
      else None)"
  by pat_completeness auto
termination
  by (relation "measure (\<lambda>(p, s). length (timers s))")
     (auto simp: fire_def timeout_callback_def reject_def settle_def Let_def less_Suc_eq_le)

declare await.simps [simp del]

definition reply_events :: "string \<Rightarrow> app_response \<Rightarrow> event list" where
  "reply_events requestId r =
     (case r of
        Calls d (Success q) \<Rightarrow> [Elapse d, GetSuccess requestId q]
      | Calls d (Failure q) \<Rightarrow> [Elapse d, GetError requestId q]
      | Calls d Cancelled \<Rightarrow> [Elapse d, GetCancel requestId]
      | _ \<Rightarrow> [])"

text \<open>
  \<^verbatim>\<open>
  const responsePromise = this.callbackServer.registerRequest(requestId);
  await execFileAsync('open', [url]);
  const response = await responsePromise;
  if (!response.success) { throw new Error(response.error || 'Unknown error from Drafts'); }
  return response.data || {};
  \<close>
\<close>

definition openUrl ::
  "string \<Rightarrow> string \<Rightarrow> world \<Rightarrow> ((error + (string \<times> string) list) \<times> world) option" where
  "openUrl url requestId w =
     (let (p, s1) = registerRequest requestId (callbackServer w);
          r = app w (length (opened w)) url;
          w1 = w\<lparr>callbackServer := s1, opened := opened w @ [url]\<rparr>
      in case r of
           LaunchFails msg \<Rightarrow> Some (Inl (SystemError msg), w1)
         | _ \<Rightarrow>
            (case await p (run (reply_events requestId r) s1) of
               None \<Rightarrow> None
             | Some (Inl e, s2) \<Rightarrow> Some (Inl e, w1\<lparr>callbackServer := s2\<rparr>)
             | Some (Inr response, s2) \<Rightarrow>
                 if \<not> success response then
                   Some (Inl (Error (if truthy (error response) then js_toString (the (error response))
                                     else ''Unknown error from Drafts'')),
                         w1\<lparr>callbackServer := s2\<rparr>)
                 else
                   Some (Inr (case data response of None \<Rightarrow> [] | Some d \<Rightarrow> d),
                         w1\<lparr>callbackServer := s2\<rparr>)))"

subsection \<open>The operations\<close>

record Draft =
  uuid :: string
  title :: string
  tags :: "string list"
  createdAt :: string
  modifiedAt :: string
  isFlagged :: bool
  isArchived :: bool
  isTrashed :: bool
  content :: string

text \<open>\<^verbatim>\<open>s.split(sep)\<close> for a separator of one character.\<close>

fun split :: "char \<Rightarrow> string \<Rightarrow> string list" where
  "split sep [] = [[]]"
| "split sep (c # cs) =
     (if c = sep then [] # split sep cs
      else (case split sep cs of [] \<Rightarrow> [[c]] | x # xs \<Rightarrow> (c # x) # xs))"

text \<open>A property of the response that may be missing; \<^verbatim>\<open>v || d\<close> and \<^verbatim>\<open>!v\<close> on it.\<close>

definition or_else :: "string option \<Rightarrow> string \<Rightarrow> string" where
  "or_else v d = (case v of None \<Rightarrow> d | Some x \<Rightarrow> if x = [] then d else x)"

definition falsy :: "string option \<Rightarrow> bool" where
  "falsy v = (case v of None \<Rightarrow> True | Some x \<Rightarrow> x = [])"

text \<open>An operation that returns nothing: \<^verbatim>\<open>await this.openUrl(url, requestId);\<close>\<close>

definition discard ::
  "((error + 'a) \<times> world) option \<Rightarrow> ((error + unit) \<times> world) option" where
  "discard r = map_option (\<lambda>(x, w). (map_sum id (\<lambda>_. ()) x, w)) r"

definition createDraft ::
  "DraftsClient \<Rightarrow> string \<Rightarrow> string list option \<Rightarrow> string option \<Rightarrow> string option \<Rightarrow> world
     \<Rightarrow> ((error + unit) \<times> world \<times> attempt list) option" where
  "createDraft c text tgs action folder =
     executeWithRetry c
       (\<lambda>w. let ((url, requestId), w1) =
                  buildUrl ''create''
                    [(''text'', PString text),
                     (''tag'', (case tgs of None \<Rightarrow> PUndefined | Some ts \<Rightarrow> PArray ts)),
                     (''action'', optional action),
                     (''folder'', optional folder)] w
            in discard (openUrl url requestId w1))
       (maxRetries c)"

definition getDraft_attempt :: "string \<Rightarrow> world \<Rightarrow> ((error + Draft) \<times> world) option" where
  "getDraft_attempt uid w =
     (let ((url, requestId), w1) = buildUrl ''get'' [(''uuid'', PString uid)] w
      in case openUrl url requestId w1 of
           None \<Rightarrow> None
         | Some (Inl e, w2) \<Rightarrow> Some (Inl e, w2)
         | Some (Inr response, w2) \<Rightarrow>
             if falsy (map_of response ''text'') then
               Some (Inl (Error ''No content returned from Drafts''), w2)
             else
               (let cont = or_else (map_of response ''text'') [];
                    ttl = or_else (map_of response ''title'')
                            (or_else (case split (CHR 0x0A) cont of [] \<Rightarrow> None | x # xs \<Rightarrow> Some x) []);
                    tgs = (if falsy (map_of response ''tags'') then []
                           else split CHR '','' (the (map_of response ''tags'')))
                in Some (Inr \<lparr>uuid = uid, title = ttl, tags = tgs,
                               createdAt = or_else (map_of response ''createdAt'') [],
                               modifiedAt = or_else (map_of response ''modifiedAt'') [],
                               isFlagged = (map_of response ''flagged'' = Some ''true''),
                               isArchived = (map_of response ''archived'' = Some ''true''),
                               isTrashed = (map_of response ''trashed'' = Some ''true''),
                               content = cont\<rparr>, w2)))"

definition getDraft ::
  "DraftsClient \<Rightarrow> string \<Rightarrow> world \<Rightarrow> ((error + Draft) \<times> world \<times> attempt list) option" where
  "getDraft c uid = executeWithRetry c (getDraft_attempt uid) (maxRetries c)"

definition appendToDraft ::
  "DraftsClient \<Rightarrow> string \<Rightarrow> string \<Rightarrow> world \<Rightarrow> ((error + unit) \<times> world \<times> attempt list) option" where
  "appendToDraft c uid text =
     executeWithRetry c
       (\<lambda>w. let ((url, requestId), w1) =
                  buildUrl ''append'' [(''uuid'', PString uid), (''text'', PString text)] w
            in discard (openUrl url requestId w1))
       (maxRetries c)"

definition prependToDraft ::
  "DraftsClient \<Rightarrow> string \<Rightarrow> string \<Rightarrow> world \<Rightarrow> ((error + unit) \<times> world \<times> attempt list) option" where
  "prependToDraft c uid text =
     executeWithRetry c
       (\<lambda>w. let ((url, requestId), w1) =
                  buildUrl ''prepend'' [(''uuid'', PString uid), (''text'', PString text)] w
            in discard (openUrl url requestId w1))
       (maxRetries c)"

definition openDraft_attempt ::
  "string option \<Rightarrow> string option \<Rightarrow> world \<Rightarrow> ((error + unit) \<times> world) option" where
  "openDraft_attempt uid ttl w =
     (if falsy uid \<and> falsy ttl then
        Some (Inl (Error ''Either uuid or title must be provided''), w)
      else
        (let ((url, requestId), w1) =
               buildUrl ''open'' [(''uuid'', optional uid), (''title'', optional ttl)] w
         in discard (openUrl url requestId w1)))"

definition openDraft ::
  "DraftsClient \<Rightarrow> string option \<Rightarrow> string option \<Rightarrow> world
     \<Rightarrow> ((error + unit) \<times> world \<times> attempt list) option" where
  "openDraft c uid ttl = executeWithRetry c (openDraft_attempt uid ttl) (maxRetries c)"

definition runAction ::
  "DraftsClient \<Rightarrow> string \<Rightarrow> string \<Rightarrow> world \<Rightarrow> ((error + unit) \<times> world \<times> attempt list) option" where
  "runAction c actionName text =
     executeWithRetry c
       (\<lambda>w. let ((url, requestId), w1) =
                  buildUrl ''runAction'' [(''action'', PString actionName), (''text'', PString text)] w
            in discard (openUrl url requestId w1))
       (maxRetries c)"

definition searchDrafts ::
  "DraftsClient \<Rightarrow> string option \<Rightarrow> string option \<Rightarrow> string option \<Rightarrow> world
     \<Rightarrow> ((error + unit) \<times> world \<times> attempt list) option" where
  "searchDrafts c qry tag folder =
     executeWithRetry c
       (\<lambda>w. let ((url, requestId), w1) =
                  buildUrl ''search''
                    [(''query'', optional qry), (''tag'', optional tag), (''folder'', optional folder)] w
            in discard (openUrl url requestId w1))
       (maxRetries c)"

section \<open>Consistency of the server state\<close>

text \<open>
  What holds of the timers, the promises and the request table in every state that the
  methods and the routes reach from a new server: timers have distinct identifiers, each
  belongs to its own promise, and that promise is pending and has not been settled by any
  call; the calls settle distinct promises; every entry of the table has its live timer,
  which carries the entry's promise and request identifier.
\<close>

definition timers_ok :: "correlator \<Rightarrow> bool" where
  "timers_ok s \<longleftrightarrow>
     distinct (map tid (timers s)) \<and>
     distinct (map for_promise (timers s)) \<and>
     (\<forall>t \<in> set (timers s).
        tid t < next_timer s \<and> for_promise t < length (promises s) \<and>
        promises s ! for_promise t = Pending \<and> for_promise t \<notin> fst ` set (calls s)) \<and>
     distinct (map fst (calls s)) \<and>
     (\<forall>p \<in> fst ` set (calls s). p < length (promises s) \<and> promises s ! p \<noteq> Pending)"

definition table_ok :: "correlator \<Rightarrow> bool" where
  "table_ok s \<longleftrightarrow>
     distinct (map fst (pendingRequests s)) \<and>
     (\<forall>(rid, pr) \<in> set (pendingRequests s).
        \<exists>t \<in> set (timers s). tid t = timeout pr \<and> for_promise t = promise pr \<and> for_request t = rid)"

definition consistent :: "correlator \<Rightarrow> bool" where
  "consistent s \<longleftrightarrow> timers_ok s \<and> table_ok s"

text \<open>
  An event leaves a request alone when it is neither a callback for its identifier nor
  \<open>stop\<close>; \<open>elapsed\<close> is the time that a list of events takes.
\<close>

fun leaves_alone :: "string \<Rightarrow> event \<Rightarrow> bool" where
  "leaves_alone rid (Register r) = True"
| "leaves_alone rid (GetSuccess r q) = (r \<noteq> rid)"
| "leaves_alone rid (GetError r q) = (r \<noteq> rid)"
| "leaves_alone rid (GetCancel r) = (r \<noteq> rid)"
| "leaves_alone rid (Elapse d) = True"
| "leaves_alone rid Stop = False"

fun duration :: "event \<Rightarrow> nat" where
  "duration (Elapse d) = d"
| "duration (Register r) = 0"
| "duration (GetSuccess r q) = 0"
| "duration (GetError r q) = 0"
| "duration (GetCancel r) = 0"
| "duration Stop = 0"

definition elapsed :: "event list \<Rightarrow> nat" where
  "elapsed es = sum_list (map duration es)"

text \<open>
  The timer of the promise \<open>p\<close>, registered for \<open>rid\<close>, is live and due at \<open>T\<close>; the
  promise \<open>p\<close> has been rejected by the timeout and \<open>rid\<close> has no entry.
\<close>

definition armed :: "nat \<Rightarrow> string \<Rightarrow> nat \<Rightarrow> correlator \<Rightarrow> bool" where
  "armed p rid T s \<longleftrightarrow>
     consistent s \<and>
     (\<exists>t \<in> set (timers s). for_promise t = p \<and> for_request t = rid \<and> due t = T)"

definition timed_out :: "nat \<Rightarrow> string \<Rightarrow> correlator \<Rightarrow> bool" where
  "timed_out p rid s \<longleftrightarrow>
     p < length (promises s) \<and>
     promises s ! p =
       Rejected (Error (''Request '' @ rid @ '' timed out after '' @ string_of_nat REQUEST_TIMEOUT @ ''ms'')) \<and>
     map_of (pendingRequests s) rid = None"

text \<open>No request is outstanding: no live timer and no entry in the table.\<close>

definition quiescent :: "world \<Rightarrow> bool" where
  "quiescent w \<longleftrightarrow> timers (callbackServer w) = [] \<and> pendingRequests (callbackServer w) = []"

text \<open>
  No entry of the table refers to the promise \<open>p\<close>, and no call other than that of a timeout
  has settled it.
\<close>

definition orphaned :: "nat \<Rightarrow> correlator \<Rightarrow> bool" where
  "orphaned p s \<longleftrightarrow>
     consistent s \<and> p < length (promises s) \<and>
     (\<forall>(rid, pr) \<in> set (pendingRequests s). promise pr \<noteq> p) \<and>
     (\<forall>c \<in> set (calls s). fst c = p \<longrightarrow> snd c = ByTimeout)"

text \<open>
  The timer of \<open>p\<close> is live and due at \<open>T\<close>, the table holds \<open>entry\<close> for \<open>rid\<close>, and every live
  timer registered for \<open>rid\<close> is that of \<open>p\<close>.
\<close>

definition held :: "nat \<Rightarrow> string \<Rightarrow> PendingRequest \<Rightarrow> nat \<Rightarrow> correlator \<Rightarrow> bool" where
  "held p rid entry T s \<longleftrightarrow>
     armed p rid T s \<and> map_of (pendingRequests s) rid = Some entry \<and>
     (\<forall>t \<in> set (timers s). for_request t = rid \<longrightarrow> for_promise t = p)"

text \<open>
  In a list of events that starts in the state \<open>s\<close>, no identifier is registered while it
  has an entry in the table; every live timer belongs to an entry of the table.
\<close>

fun registers_fresh :: "event list \<Rightarrow> correlator \<Rightarrow> bool" where
  "registers_fresh [] s = True"
| "registers_fresh (Register r # es) s =
     (map_of (pendingRequests s) r = None \<and> registers_fresh es (step (Register r) s))"
| "registers_fresh (GetSuccess r q # es) s = registers_fresh es (step (GetSuccess r q) s)"
| "registers_fresh (GetError r q # es) s = registers_fresh es (step (GetError r q) s)"
| "registers_fresh (GetCancel r # es) s = registers_fresh es (step (GetCancel r) s)"
| "registers_fresh (Elapse d # es) s = registers_fresh es (step (Elapse d) s)"
| "registers_fresh (Stop # es) s = registers_fresh es (step Stop s)"

definition no_orphans :: "correlator \<Rightarrow> bool" where
  "no_orphans s \<longleftrightarrow>
     (\<forall>t \<in> set (timers s). \<exists>(rid, pr) \<in> set (pendingRequests s). timeout pr = tid t)"

section \<open>Preservation of consistency\<close>

lemma timers_settle [simp]: "timers (settle p v src s) = timers s"
  by (simp add: settle_def Let_def)

lemma timers_fire [simp]: "timers (fire t s) = filter (\<lambda>x. tid x \<noteq> tid t) (timers s)"
  by (simp add: fire_def timeout_callback_def reject_def)

lemma settle_fields [simp]:
  "port (settle p v src s) = port s"
  "server (settle p v src s) = server s"
  "pendingRequests (settle p v src s) = pendingRequests s"
  "next_timer (settle p v src s) = next_timer s"
  "now (settle p v src s) = now s"
  "calls (settle p v src s) = calls s @ [(p, src)]"
  "length (promises (settle p v src s)) = length (promises s)"
  by (simp_all add: settle_def Let_def)

lemma promises_settle:
  "promises (settle p v src s) =
     (if p < length (promises s) \<and> promises s ! p = Pending then (promises s)[p := v] else promises s)"
  by (simp add: settle_def Let_def)

lemma timers_okD:
  assumes "timers_ok s" and "t \<in> set (timers s)"
  shows "tid t < next_timer s" and "for_promise t < length (promises s)"
    and "promises s ! for_promise t = Pending" and "for_promise t \<notin> fst ` set (calls s)"
  using assms by (auto simp: timers_ok_def)

lemma timers_ok_inj:
  assumes "timers_ok s"
  shows "inj_on tid (set (timers s))" and "inj_on for_promise (set (timers s))"
  using assms by (simp_all add: timers_ok_def distinct_map)

lemma timers_ok_finish:
  assumes ok: "timers_ok s" and t: "t \<in> set (timers s)" and v: "v \<noteq> Pending"
    and T: "timers s' = filter (\<lambda>x. tid x \<noteq> tid t) (timers s)"
    and P: "promises s' = (promises s)[for_promise t := v]"
    and C: "calls s' = calls s @ [(for_promise t, src)]"
    and N: "next_timer s' = next_timer s"
  shows "timers_ok s'"
proof -
  note tD = timers_okD[OF ok]
  from ok have dt: "distinct (map tid (timers s))"
    and dp: "distinct (map for_promise (timers s))"
    and dc: "distinct (map fst (calls s))"
    and cl: "\<And>p. p \<in> fst ` set (calls s) \<Longrightarrow> p < length (promises s) \<and> promises s ! p \<noteq> Pending"
    by (auto simp: timers_ok_def)
  have other: "for_promise u \<noteq> for_promise t" if "u \<in> set (timers s')" for u
    using that t timers_ok_inj(2)[OF ok] unfolding T by (auto dest: inj_onD)
  have 1: "distinct (map tid (timers s'))"
    unfolding T using dt by (simp add: distinct_map_filter)
  have 2: "distinct (map for_promise (timers s'))"
    unfolding T using dp by (simp add: distinct_map_filter)
  have 3: "tid u < next_timer s' \<and> for_promise u < length (promises s') \<and>
        promises s' ! for_promise u = Pending \<and> for_promise u \<notin> fst ` set (calls s')"
    if "u \<in> set (timers s')" for u
  proof -
    from that have u: "u \<in> set (timers s)" unfolding T by simp
    from tD[OF u] other[OF that] show ?thesis
      unfolding N P C by auto
  qed
  have 6: "distinct (map fst (calls s'))"
    unfolding C using dc tD(4)[OF t] by auto
  have 7: "p < length (promises s') \<and> promises s' ! p \<noteq> Pending" if "p \<in> fst ` set (calls s')" for p
  proof (cases "p = for_promise t")
    case True
    with tD[OF t] v show ?thesis unfolding P by simp
  next
    case False
    with that have "p \<in> fst ` set (calls s)" unfolding C by auto
    from cl[OF this] False show ?thesis unfolding P by simp
  qed
  show ?thesis
    unfolding timers_ok_def using 1 2 3 6 7 by blast
qed

lemma table_okD:
  assumes "table_ok s" and "map_of (pendingRequests s) rid = Some pr"
  shows "\<exists>t \<in> set (timers s). tid t = timeout pr \<and> for_promise t = promise pr \<and> for_request t = rid"
  using assms by (auto simp: table_ok_def dest: map_of_SomeD)

lemma table_ok_finish:
  assumes ok: "timers_ok s" and tab: "table_ok s" and t: "t \<in> set (timers s)"
    and T: "timers s' = filter (\<lambda>x. tid x \<noteq> tid t) (timers s)"
    and E: "pendingRequests s' = AList.delete (for_request t) (pendingRequests s)"
  shows "table_ok s'"
proof -
  from tab have dk: "distinct (map fst (pendingRequests s))"
    and en: "\<And>rid pr. (rid, pr) \<in> set (pendingRequests s) \<Longrightarrow>
        \<exists>u \<in> set (timers s). tid u = timeout pr \<and> for_promise u = promise pr \<and> for_request u = rid"
    by (auto simp: table_ok_def)
  have 4: "distinct (map fst (pendingRequests s'))"
    unfolding E using dk by (simp add: distinct_delete)
  have 5: "\<exists>u \<in> set (timers s'). tid u = timeout pr \<and> for_promise u = promise pr \<and> for_request u = rid"
    if "(rid, pr) \<in> set (pendingRequests s')" for rid pr
  proof -
    from that have m: "(rid, pr) \<in> set (pendingRequests s)" and ne: "rid \<noteq> for_request t"
      unfolding E by (auto simp: AList.delete_eq)
    from en[OF m] obtain u where u: "u \<in> set (timers s)" "tid u = timeout pr"
      "for_promise u = promise pr" "for_request u = rid" by blast
    with ne have "u \<noteq> t" by auto
    with u(1) t timers_ok_inj(1)[OF ok] have "tid u \<noteq> tid t" by (auto dest: inj_onD)
    with u show ?thesis unfolding T by auto
  qed
  show ?thesis
    unfolding table_ok_def using 4 5 by blast
qed

lemma consistent_fire:
  assumes "consistent s" and "t \<in> set (timers s)"
  shows "consistent (fire t s)"
proof -
  from assms(1) have ok: "timers_ok s" and tab: "table_ok s"
    by (simp_all add: consistent_def)
  note tD = timers_okD[OF ok assms(2)]
  have "timers_ok (fire t s)"
    by (rule timers_ok_finish[OF ok assms(2), where v = "Rejected (Error (''Request '' @ for_request t @ '' timed out after '' @ string_of_nat REQUEST_TIMEOUT @ ''ms''))" and src = ByTimeout])
       (use tD in \<open>simp_all add: fire_def timeout_callback_def reject_def promises_settle\<close>)
  moreover have "table_ok (fire t s)"
    by (rule table_ok_finish[OF ok tab assms(2)])
       (simp_all add: fire_def timeout_callback_def reject_def)
  ultimately show ?thesis
    by (simp add: consistent_def)
qed

lemma consistent_callback:
  assumes con: "consistent s" and m: "map_of (pendingRequests s) rid = Some pr" and v: "v \<noteq> Pending"
  shows "consistent (settle (promise pr) v src
           (clearTimeout (timeout pr) s
              \<lparr>pendingRequests := AList.delete rid (pendingRequests (clearTimeout (timeout pr) s))\<rparr>))"
    (is "consistent ?s'")
proof -
  from con have ok: "timers_ok s" and tab: "table_ok s"
    by (simp_all add: consistent_def)
  from table_okD[OF tab m] obtain t where t: "t \<in> set (timers s)" "tid t = timeout pr"
    "for_promise t = promise pr" "for_request t = rid" by blast
  note tD = timers_okD[OF ok t(1)]
  have "timers_ok ?s'"
    by (rule timers_ok_finish[OF ok t(1) v, where src = src])
       (use tD t in \<open>simp_all add: clearTimeout_def promises_settle\<close>)
  moreover have "table_ok ?s'"
    by (rule table_ok_finish[OF ok tab t(1)])
       (use t in \<open>simp_all add: clearTimeout_def\<close>)
  ultimately show ?thesis
    by (simp add: consistent_def)
qed

lemma consistent_get_x_success: "consistent s \<Longrightarrow> consistent (snd (get_x_success rid q s))"
  by (auto simp: get_x_success_def resolve_def Let_def split: option.splits intro!: consistent_callback)

lemma consistent_get_x_error: "consistent s \<Longrightarrow> consistent (snd (get_x_error rid q s))"
  by (auto simp: get_x_error_def resolve_def Let_def split: option.splits intro!: consistent_callback)

lemma consistent_get_x_cancel: "consistent s \<Longrightarrow> consistent (snd (get_x_cancel rid s))"
  by (auto simp: get_x_cancel_def resolve_def Let_def split: option.splits intro!: consistent_callback)


lemma consistent_registerRequest:
  assumes con: "consistent s"
  shows "consistent (snd (registerRequest rid s))"
proof -
  from con have ok: "timers_ok s" and tab: "table_ok s"
    by (simp_all add: consistent_def)
  note tD = timers_okD[OF ok]
  let ?p = "length (promises s)"
  let ?t = "\<lparr>tid = next_timer s, due = now s + REQUEST_TIMEOUT, for_request = rid, for_promise = ?p\<rparr>"
  let ?s' = "snd (registerRequest rid s)"
  have T: "timers ?s' = timers s @ [?t]"
    and P: "promises ?s' = promises s @ [Pending]"
    and C: "calls ?s' = calls s"
    and N: "next_timer ?s' = next_timer s + 1"
    and E: "pendingRequests ?s' = AList.update rid \<lparr>promise = ?p, timeout = next_timer s\<rparr> (pendingRequests s)"
    by (simp_all add: registerRequest_def Let_def)
  from ok have dt: "distinct (map tid (timers s))"
    and dp: "distinct (map for_promise (timers s))"
    and dc: "distinct (map fst (calls s))"
    and cl: "\<And>p. p \<in> fst ` set (calls s) \<Longrightarrow> p < length (promises s) \<and> promises s ! p \<noteq> Pending"
    by (auto simp: timers_ok_def)
  have 1: "distinct (map tid (timers ?s'))"
    unfolding T using dt tD(1) by fastforce
  have 2: "distinct (map for_promise (timers ?s'))"
    unfolding T using dp tD(2) by fastforce
  have 3: "tid u < next_timer ?s' \<and> for_promise u < length (promises ?s') \<and>
        promises ?s' ! for_promise u = Pending \<and> for_promise u \<notin> fst ` set (calls ?s')"
    if "u \<in> set (timers ?s')" for u
  proof (cases "u = ?t")
    case True
    moreover have "?p \<notin> fst ` set (calls s)"
      using cl by blast
    ultimately show ?thesis
      unfolding N P C by simp
  next
    case False
    with that have "u \<in> set (timers s)"
      unfolding T by simp
    from tD[OF this] show ?thesis
      unfolding N P C by (simp add: nth_append)
  qed
  have 7: "p < length (promises ?s') \<and> promises ?s' ! p \<noteq> Pending" if "p \<in> fst ` set (calls ?s')" for p
    using cl[of p] that unfolding P C by (simp add: nth_append)
  have "timers_ok ?s'"
    unfolding timers_ok_def using 1 2 3 7 dc C by auto
  moreover
  from tab have dk: "distinct (map fst (pendingRequests s))"
    and en: "\<And>r pr. (r, pr) \<in> set (pendingRequests s) \<Longrightarrow>
        \<exists>u \<in> set (timers s). tid u = timeout pr \<and> for_promise u = promise pr \<and> for_request u = r"
    by (auto simp: table_ok_def)
  have 4: "distinct (map fst (pendingRequests ?s'))"
    unfolding E using dk by (simp add: distinct_update)
  have 5: "\<exists>u \<in> set (timers ?s'). tid u = timeout pr \<and> for_promise u = promise pr \<and> for_request u = r"
    if "(r, pr) \<in> set (pendingRequests ?s')" for r pr
  proof -
    from that 4 have "map_of (pendingRequests ?s') r = Some pr"
      by simp
    then have m: "((map_of (pendingRequests s))(rid \<mapsto> \<lparr>promise = ?p, timeout = next_timer s\<rparr>)) r = Some pr"
      unfolding E by (simp add: update_conv')
    show ?thesis
    proof (cases "r = rid")
      case True
      with m have "pr = \<lparr>promise = ?p, timeout = next_timer s\<rparr>" by simp
      with True show ?thesis unfolding T by simp
    next
      case False
      with m have "(r, pr) \<in> set (pendingRequests s)"
        by (auto dest: map_of_SomeD)
      from en[OF this] show ?thesis unfolding T by auto
    qed
  qed
  have "table_ok ?s'"
    unfolding table_ok_def using 4 5 by blast
  ultimately show ?thesis
    by (simp add: consistent_def)
qed

lemma timers_ok_stop_entries:
  assumes "timers_ok s" and "distinct (map fst es)"
    and "\<forall>(rid, pr) \<in> set es.
           \<exists>t \<in> set (timers s). tid t = timeout pr \<and> for_promise t = promise pr \<and> for_request t = rid"
  shows "timers_ok (fold stop_entry es s)"
  using assms
proof (induction es arbitrary: s)
  case Nil
  then show ?case by simp
next
  case (Cons e es)
  obtain rid pr where e: "e = (rid, pr)" by (cases e)
  from Cons.prems(3) e obtain t where t: "t \<in> set (timers s)" "tid t = timeout pr"
    "for_promise t = promise pr" "for_request t = rid" by auto
  note tD = timers_okD[OF Cons.prems(1) t(1)]
  let ?s1 = "stop_entry e s"
  have ok1: "timers_ok ?s1"
    by (rule timers_ok_finish[OF Cons.prems(1) t(1), where v = "Rejected (Error ''Server shutting down'')" and src = ByStop])
       (use tD t e in \<open>simp_all add: stop_entry_def reject_def clearTimeout_def promises_settle\<close>)
  have T1: "timers ?s1 = filter (\<lambda>x. tid x \<noteq> tid t) (timers s)"
    using t e by (simp add: stop_entry_def reject_def clearTimeout_def)
  have "\<exists>u \<in> set (timers ?s1). tid u = timeout pr' \<and> for_promise u = promise pr' \<and> for_request u = rid'"
    if "(rid', pr') \<in> set es" for rid' pr'
  proof -
    from that Cons.prems(3) obtain u where u: "u \<in> set (timers s)" "tid u = timeout pr'"
      "for_promise u = promise pr'" "for_request u = rid'" by auto
    from that Cons.prems(2) e have "rid' \<noteq> rid" by force
    with u t have "u \<noteq> t" by auto
    with u(1) t(1) timers_ok_inj(1)[OF Cons.prems(1)] have "tid u \<noteq> tid t"
      by (auto dest: inj_onD)
    with u show ?thesis unfolding T1 by auto
  qed
  then have "\<forall>(rid, pr) \<in> set es.
           \<exists>t \<in> set (timers ?s1). tid t = timeout pr \<and> for_promise t = promise pr \<and> for_request t = rid"
    by blast
  with Cons.IH[OF ok1] Cons.prems(2) show ?case by simp
qed

lemma fold_stop_entry_fields [simp]:
  "pendingRequests (fold stop_entry es s) = pendingRequests s"
  "server (fold stop_entry es s) = server s"
  "port (fold stop_entry es s) = port s"
  "now (fold stop_entry es s) = now s"
  by (induction es arbitrary: s) (simp_all add: stop_entry_def reject_def clearTimeout_def)

lemma timers_ok_cong:
  "timers s' = timers s \<Longrightarrow> promises s' = promises s \<Longrightarrow> calls s' = calls s \<Longrightarrow>
   next_timer s' = next_timer s \<Longrightarrow> timers_ok s' = timers_ok s"
  by (simp add: timers_ok_def)

lemma consistent_stop:
  assumes "consistent s"
  shows "consistent (snd (stop s))"
proof -
  from assms have ok: "timers_ok s" and tab: "table_ok s"
    by (simp_all add: consistent_def)
  from tab have "timers_ok (fold stop_entry (pendingRequests s) s)"
    by (intro timers_ok_stop_entries[OF ok]) (auto simp: table_ok_def)
  moreover have "timers_ok (snd (stop s)) = timers_ok (fold stop_entry (pendingRequests s) s)"
    by (rule timers_ok_cong) (simp_all add: stop_def Let_def split: listener.splits)
  moreover have "pendingRequests (snd (stop s)) = []"
    by (simp add: stop_def Let_def split: listener.splits)
  ultimately show ?thesis
    by (simp add: consistent_def table_ok_def)
qed

lemma consistent_run_timers: "consistent s \<Longrightarrow> consistent (run_timers T s)"
proof (induction T s rule: run_timers.induct)
  case (1 T s)
  show ?case
  proof (cases "find (\<lambda>t. due t \<le> T) (timers s)")
    case None
    with "1.prems" show ?thesis by (simp add: run_timers.simps)
  next
    case (Some t)
    then have "t \<in> set (timers s)" by (auto simp: find_Some_iff)
    with "1.prems" have "consistent (fire t s)" by (rule consistent_fire)
    with "1.IH"[OF Some] Some show ?thesis by (simp add: run_timers.simps)
  qed
qed

lemma consistent_now [simp]: "consistent (s\<lparr>now := n\<rparr>) = consistent s"
  by (simp add: consistent_def timers_ok_def table_ok_def)

lemma consistent_advance: "consistent s \<Longrightarrow> consistent (advance d s)"
  by (simp add: advance_def consistent_run_timers)

lemma consistent_step: "consistent s \<Longrightarrow> consistent (step e s)"
  by (cases e)
     (simp_all add: consistent_registerRequest consistent_get_x_success consistent_get_x_error
        consistent_get_x_cancel consistent_advance consistent_stop)

lemma consistent_run: "consistent s \<Longrightarrow> consistent (run es s)"
  unfolding run_def by (induction es arbitrary: s) (simp_all add: consistent_step)

lemma consistent_new: "consistent new_CallbackServer"
  by (simp add: consistent_def timers_ok_def table_ok_def new_CallbackServer_def)

lemma consistent_start: "consistent s \<Longrightarrow> consistent (snd (start got listen_error s))"
  by (auto simp: start_def Let_def consistent_def timers_ok_def table_ok_def split: sum.splits option.splits)

section \<open>Facts about the encoders and the routes\<close>

lemma hex_digit_in: "hex_digit d \<in> set ''0123456789ABCDEF''"
proof -
  have "d mod 16 < length ''0123456789ABCDEF''" by simp
  then show ?thesis unfolding hex_digit_def by (rule nth_mem)
qed

lemma hex_digit_plain:
  "hex_digit d \<notin> {CHR ''!'', CHR 0x27, CHR ''('', CHR '')'', CHR ''*''}"
  using hex_digit_in[of d] by auto

lemma escape_of_five:
  "toUpperCase (toString16 33) = ''21''"
  "toUpperCase (toString16 39) = ''27''"
  "toUpperCase (toString16 40) = ''28''"
  "toUpperCase (toString16 41) = ''29''"
  "toUpperCase (toString16 42) = ''2A''"
  by (simp_all add: toUpperCase_def toString16.simps)

lemma encodeURIComponentSafe_escapes:
  "set (encodeURIComponentSafe str) \<inter> {CHR ''!'', CHR 0x27, CHR ''('', CHR '')'', CHR ''*''} = {}"
proof -
  define f where "f = (\<lambda>c. if c \<in> set ''!'' \<or> c = CHR 0x27 \<or> c \<in> set ''()*''
                 then ''%'' @ toUpperCase (toString16 (of_char c)) else [c])"
  define S where "S = {CHR ''!'', CHR 0x27, CHR ''('', CHR '')'', CHR ''*''}"
  have one: "set (f c) \<inter> S = {}" for c
  proof (cases "c \<in> set ''!'' \<or> c = CHR 0x27 \<or> c \<in> set ''()*''")
    case True
    then consider "c = CHR ''!''" | "c = CHR 0x27" | "c = CHR ''(''" | "c = CHR '')''" | "c = CHR ''*''"
      by auto
    then show ?thesis
      unfolding f_def S_def by cases (simp_all add: escape_of_five)
  next
    case False
    then show ?thesis unfolding f_def S_def by auto
  qed
  have "encodeURIComponentSafe str = concat (map f (encodeURIComponent str))"
    by (simp add: encodeURIComponentSafe_def f_def)
  then have "set (encodeURIComponentSafe str) = (\<Union>c \<in> set (encodeURIComponent str). set (f c))"
    by simp
  with one have "set (encodeURIComponentSafe str) \<inter> S = {}"
    by blast
  then show ?thesis
    unfolding S_def .
qed

lemma urlencoded_keeps_asterisk: "CHR ''*'' \<in> set v \<Longrightarrow> CHR ''*'' \<in> set (urlencoded v)"
  by (auto simp: urlencoded_def urlencoded_byte_def)

lemma urlencoded_escapes_four:
  "set (urlencoded v) \<inter> {CHR ''!'', CHR 0x27, CHR ''('', CHR '')''} = {}"
proof -
  define S where "S = {CHR ''!'', CHR 0x27, CHR ''('', CHR '')''}"
  have one: "set (urlencoded_byte c) \<inter> S = {}" for c
    using hex_digit_plain[of "of_char c div 16"] hex_digit_plain[of "of_char c mod 16"]
    unfolding S_def by (auto simp: urlencoded_byte_def is_alnum_def percent_byte_def)
  have "set (urlencoded v) = (\<Union>c \<in> set v. set (urlencoded_byte c))"
    by (simp add: urlencoded_def)
  with one have "set (urlencoded v) \<inter> S = {}"
    by blast
  then show ?thesis
    unfolding S_def .
qed

lemma promises_callback:
  assumes con: "consistent s" and m: "map_of (pendingRequests s) rid = Some pr"
  shows "promises (settle (promise pr) v src
           (clearTimeout (timeout pr) s
              \<lparr>pendingRequests := AList.delete rid (pendingRequests (clearTimeout (timeout pr) s))\<rparr>))
         ! promise pr = v"
proof -
  from con have ok: "timers_ok s" and tab: "table_ok s"
    by (simp_all add: consistent_def)
  from table_okD[OF tab m] obtain t where t: "t \<in> set (timers s)" "for_promise t = promise pr"
    by blast
  from timers_okD[OF ok t(1)] t(2) show ?thesis
    by (simp add: promises_settle clearTimeout_def)
qed

lemma map_of_collect:
  "distinct (map fst q) \<Longrightarrow>
   map_of (collect q d) k =
     (case map_of q k of Some (QString v) \<Rightarrow> Some v | Some (QArray xs) \<Rightarrow> map_of d k
      | Some (QObject kvs) \<Rightarrow> map_of d k | None \<Rightarrow> map_of d k)"
proof (induction q d rule: collect.induct)
  case (1 d)
  then show ?case by simp
next
  case (2 key v rest d)
  then have "map_of rest key = None"
    by (simp add: map_of_eq_None_iff)
  with 2 show ?case
    by (auto simp: update_conv' split: option.splits query_value.splits)
next
  case (3 key xs rest d)
  then have "map_of rest key = None"
    by (simp add: map_of_eq_None_iff)
  with 3 show ?case by simp
next
  case (4 key kvs rest d)
  then have "map_of rest key = None"
    by (simp add: map_of_eq_None_iff)
  with 4 show ?case by simp
qed

section \<open>Facts about the retry loop and the operations\<close>

lemma now_run_timers [simp]: "now (run_timers T s) = now s"
proof (induction T s rule: run_timers.induct)
  case (1 T s)
  show ?case
  proof (cases "find (\<lambda>t. due t \<le> T) (timers s)")
    case None
    then show ?thesis by (simp add: run_timers.simps)
  next
    case (Some t)
    with "1.IH"[OF Some] show ?thesis
      by (simp add: run_timers.simps fire_def timeout_callback_def reject_def)
  qed
qed

lemma now_advance [simp]: "now (advance d s) = now s + d"
  by (simp add: advance_def)


lemma now_sleep [simp]: "now (callbackServer (sleep d w)) = now (callbackServer w) + setTimeout_delay d"
  by (simp add: sleep_def)

lemma sleep_fields [simp]:
  "opened (sleep d w) = opened w"
  "minted (sleep d w) = minted w"
  "app (sleep d w) = app w"
  "randomUUID (sleep d w) = randomUUID w"
  by (simp_all add: sleep_def)

lemma executeWithRetry_all_fail:
  fixes m :: "world \<Rightarrow> nat"
  assumes fails: "\<And>w. P w \<Longrightarrow> \<exists>e w'. fn w = Some (Inl e, w') \<and> P w' \<and> Q e \<and> m w' = m w + k"
    and waits: "\<And>w. P w \<Longrightarrow> P (sleep (retryDelay c) w) \<and> m (sleep (retryDelay c) w) = m w + j"
    and "P w"
  shows "\<exists>e w' tr. executeWithRetry c fn (int n) w = Some (Inl e, w', tr) \<and>
           length tr = n + 1 \<and> delays_at_least (setTimeout_delay (retryDelay c)) tr \<and>
           started (hd tr) = now (callbackServer w) \<and>
           finished (last tr) = now (callbackServer w') \<and>
           failure (last tr) = Some e \<and> (\<exists>w1. P w1 \<and> fn w1 = Some (Inl e, w')) \<and>
           P w' \<and> Q e \<and> m w' = m w + k * (n + 1) + j * n"
  using \<open>P w\<close>
proof (induction n arbitrary: w)
  case 0
  from fails[OF 0] obtain e w' where f: "fn w = Some (Inl e, w')" "P w'" "Q e" "m w' = m w + k"
    by blast
  with 0 show ?case
    by (auto simp: executeWithRetry.simps[of c fn 0 w])
next
  case (Suc n)
  from fails[OF Suc.prems] obtain e w1 where f: "fn w = Some (Inl e, w1)" "P w1" "Q e" "m w1 = m w + k"
    by blast
  let ?nxt = "sleep (retryDelay c) w1"
  have P2: "P ?nxt" and m2: "m ?nxt = m w1 + j"
    using waits[OF f(2)] by simp_all
  from Suc.IH[OF P2] obtain e' w' tr where r:
    "executeWithRetry c fn (int n) ?nxt = Some (Inl e', w', tr)" "length tr = n + 1"
    "delays_at_least (setTimeout_delay (retryDelay c)) tr" "started (hd tr) = now (callbackServer ?nxt)"
    "failure (last tr) = Some e'" "\<exists>w1. P w1 \<and> fn w1 = Some (Inl e', w')" "P w'" "Q e'"
    "m w' = m ?nxt + k * (n + 1) + j * n" "finished (last tr) = now (callbackServer w')"
    by blast
  let ?a = "\<lparr>started = now (callbackServer w), finished = now (callbackServer w1), failure = Some e\<rparr>"
  have ex: "executeWithRetry c fn (int (Suc n)) w = Some (Inl e', w', ?a # tr)"
    using f(1) r(1) by (subst executeWithRetry.simps) (simp add: Let_def)
  from r(2) obtain b rest where tr: "tr = b # rest"
    by (cases tr) auto
  have "delays_at_least (setTimeout_delay (retryDelay c)) (?a # tr)"
    using r(3,4) tr by simp
  moreover have "failure (last (?a # tr)) = Some e'" "finished (last (?a # tr)) = now (callbackServer w')"
    using r(5,10) tr by simp_all
  moreover have "m w' = m w + k * (Suc n + 1) + j * Suc n"
    using r(9) f(4) m2 by simp
  ultimately show ?case
    using ex r(2,6,7,8) by auto
qed

lemma length_promises_run_timers [simp]: "length (promises (run_timers T s)) = length (promises s)"
proof (induction T s rule: run_timers.induct)
  case (1 T s)
  show ?case
  proof (cases "find (\<lambda>t. due t \<le> T) (timers s)")
    case None
    then show ?thesis by (simp add: run_timers.simps)
  next
    case (Some t)
    with "1.IH"[OF Some] show ?thesis
      by (simp add: run_timers.simps fire_def timeout_callback_def reject_def)
  qed
qed

lemma length_promises_advance [simp]: "length (promises (advance d s)) = length (promises s)"
  by (simp add: advance_def)

lemma run_timers_no_timers: "timers s = [] \<Longrightarrow> run_timers T s = s"
  by (simp add: run_timers.simps)

lemma quiescent_sleep: "quiescent w \<Longrightarrow> quiescent (sleep d w)"
  by (simp add: quiescent_def sleep_def advance_def run_timers_no_timers)

lemma openUrl_success_quiescent:
  assumes q: "quiescent w"
    and a: "app w (length (opened w)) url = Calls d (Success qry)"
    and d: "d < REQUEST_TIMEOUT"
  shows "\<exists>w'. openUrl url rid w = Some (Inr (collect qry []), w') \<and> quiescent w' \<and>
           opened w' = opened w @ [url] \<and> app w' = app w \<and> minted w' = minted w \<and>
           randomUUID w' = randomUUID w \<and> port (callbackServer w') = port (callbackServer w)"
proof -
  let ?s = "callbackServer w"
  let ?p = "length (promises ?s)"
  let ?t = "\<lparr>tid = next_timer ?s, due = now ?s + REQUEST_TIMEOUT, for_request = rid, for_promise = ?p\<rparr>"
  let ?s1 = "snd (registerRequest rid ?s)"
  from q have T: "timers ?s = []" and E: "pendingRequests ?s = []"
    by (simp_all add: quiescent_def)
  have s1: "timers ?s1 = [?t]" "pendingRequests ?s1 = [(rid, \<lparr>promise = ?p, timeout = next_timer ?s\<rparr>)]"
    "promises ?s1 = promises ?s @ [Pending]" "now ?s1 = now ?s" "port ?s1 = port ?s"
    "fst (registerRequest rid ?s) = ?p"
    using T E by (simp_all add: registerRequest_def Let_def)
  have adv: "advance d ?s1 = ?s1\<lparr>now := now ?s + d\<rparr>"
    using d s1 by (simp add: advance_def run_timers.simps[of _ ?s1])
  let ?s2 = "run (reply_events rid (Calls d (Success qry))) ?s1"
  have s2: "timers ?s2 = []" "pendingRequests ?s2 = []" "port ?s2 = port ?s"
    "promises ?s2 = (promises ?s)
        @ [Resolved \<lparr>success = True, data = Some (collect qry []), error = None\<rparr>]"
    using s1 by (simp_all add: reply_events_def run_def adv get_x_success_def Let_def
        clearTimeout_def resolve_def promises_settle)
  have aw: "await ?p ?s2 = Some (Inr \<lparr>success = True, data = Some (collect qry []), error = None\<rparr>, ?s2)"
    using s2 by (simp add: await.simps[of ?p ?s2])
  show ?thesis
    using a aw s1(6) s2
    by (simp add: openUrl_def Let_def split_beta quiescent_def)
qed

lemma buildUrl_fields [simp]:
  "callbackServer (snd (buildUrl ep ps w)) = callbackServer w"
  "opened (snd (buildUrl ep ps w)) = opened w"
  "app (snd (buildUrl ep ps w)) = app w"
  "minted (snd (buildUrl ep ps w)) = minted w + 1"
  "randomUUID (snd (buildUrl ep ps w)) = randomUUID w"
  by (simp_all add: buildUrl_def Let_def)

lemma getDraft_attempt_no_text:
  assumes "openUrl (fst (fst (buildUrl ''get'' [(''uuid'', PString uid)] w)))
             (snd (fst (buildUrl ''get'' [(''uuid'', PString uid)] w)))
             (snd (buildUrl ''get'' [(''uuid'', PString uid)] w)) = Some (Inr response, w2)"
    and "falsy (map_of response ''text'')"
  shows "getDraft_attempt uid w = Some (Inl (Error ''No content returned from Drafts''), w2)"
  using assms by (simp add: getDraft_attempt_def split_beta)

lemma at_most_one_call:
  "distinct (map fst cs) \<Longrightarrow> length (filter (\<lambda>call. fst call = p) cs) \<le> 1"
proof (induction cs)
  case Nil
  then show ?case by simp
next
  case (Cons c cs)
  show ?case
  proof (cases "fst c = p")
    case True
    with Cons.prems have "p \<notin> fst ` set cs" by auto
    then have "filter (\<lambda>call. fst call = p) cs = []"
      by (auto simp: filter_empty_conv)
    with True show ?thesis by simp
  next
    case False
    with Cons show ?thesis by simp
  qed
qed

lemma absent_after_delete [simp]: "map_of (AList.delete k al) k = None"
  by (simp add: delete_conv')

lemma timers_stop_entries:
  "timers (fold stop_entry es s) = filter (\<lambda>t. tid t \<notin> (timeout \<circ> snd) ` set es) (timers s)"
proof (induction es arbitrary: s)
  case Nil
  then show ?case by simp
next
  case (Cons e es)
  have "timers (stop_entry e s) = filter (\<lambda>t. tid t \<noteq> timeout (snd e)) (timers s)"
    by (simp add: stop_entry_def reject_def clearTimeout_def)
  with Cons.IH[of "stop_entry e s"] show ?case
    by (auto intro: filter_cong)
qed

lemma length_promises_stop_entry [simp]:
  "length (promises (stop_entry e s)) = length (promises s)"
  by (simp add: stop_entry_def reject_def clearTimeout_def)

lemma length_promises_stop_entries [simp]:
  "length (promises (fold stop_entry es s)) = length (promises s)"
  by (induction es arbitrary: s) simp_all

lemma rejected_stays_stop_entries:
  "p < length (promises s) \<Longrightarrow> promises s ! p = Rejected x \<Longrightarrow>
   promises (fold stop_entry es s) ! p = Rejected x"
proof (induction es arbitrary: s)
  case Nil
  then show ?case by simp
next
  case (Cons e es)
  from Cons.prems have "promises (stop_entry e s) ! p = Rejected x"
    by (auto simp: stop_entry_def reject_def promises_settle clearTimeout_def nth_list_update)
  with Cons.IH[of "stop_entry e s"] Cons.prems(1) show ?case
    by simp
qed

lemma pending_rejected_stop_entries:
  "(rid, pr) \<in> set es \<Longrightarrow> promise pr < length (promises s) \<Longrightarrow>
   promises s ! promise pr = Pending \<Longrightarrow>
   promises (fold stop_entry es s) ! promise pr = Rejected (Error ''Server shutting down'')"
proof (induction es arbitrary: s)
  case Nil
  then show ?case by simp
next
  case (Cons e es)
  let ?s1 = "stop_entry e s"
  show ?case
  proof (cases "promise (snd e) = promise pr")
    case True
    with Cons.prems(2,3) have "promises ?s1 ! promise pr = Rejected (Error ''Server shutting down'')"
      by (simp add: stop_entry_def reject_def promises_settle clearTimeout_def)
    with rejected_stays_stop_entries[of "promise pr" ?s1] Cons.prems(2) show ?thesis
      by simp
  next
    case False
    with Cons.prems(1) have m: "(rid, pr) \<in> set es" by auto
    from False Cons.prems(3) have "promises ?s1 ! promise pr = Pending"
      by (simp add: stop_entry_def reject_def promises_settle clearTimeout_def)
    with Cons.IH[OF m, of ?s1] Cons.prems(2) show ?thesis
      by simp
  qed
qed

section \<open>Facts about the timeout\<close>

lemma armed_registerRequest_new:
  assumes "consistent s"
  shows "armed (fst (registerRequest rid s)) rid (now s + REQUEST_TIMEOUT) (snd (registerRequest rid s))"
  using consistent_registerRequest[OF assms, of rid]
  by (simp add: armed_def) (simp add: registerRequest_def Let_def)

lemma armedD:
  assumes "armed p rid T s"
  shows "consistent s" and "timers_ok s" and "table_ok s"
    and "p < length (promises s)" and "promises s ! p = Pending"
  using assms by (auto simp: armed_def consistent_def dest: timers_okD)

lemma armed_now [simp]: "armed p rid T (s\<lparr>now := n\<rparr>) = armed p rid T s"
  by (simp add: armed_def)

lemma armed_fire_other:
  assumes a: "armed p rid T s" and u: "u \<in> set (timers s)" and ne: "for_promise u \<noteq> p"
  shows "armed p rid T (fire u s)"
proof -
  from a obtain t where t: "t \<in> set (timers s)" "for_promise t = p" "for_request t = rid" "due t = T"
    by (auto simp: armed_def)
  from ne t have "u \<noteq> t" by auto
  with u t(1) timers_ok_inj(1)[OF armedD(2)[OF a]] have "tid t \<noteq> tid u"
    by (auto dest: inj_onD)
  with t have "\<exists>t \<in> set (timers (fire u s)). for_promise t = p \<and> for_request t = rid \<and> due t = T"
    by auto
  with consistent_fire[OF armedD(1)[OF a] u] show ?thesis
    by (simp add: armed_def)
qed

lemma armed_run_timers_before:
  "armed p rid T s \<Longrightarrow> T' < T \<Longrightarrow> armed p rid T (run_timers T' s)"
proof (induction T' s rule: run_timers.induct)
  case (1 T' s)
  show ?case
  proof (cases "find (\<lambda>t. due t \<le> T') (timers s)")
    case None
    with "1.prems" show ?thesis by (simp add: run_timers.simps)
  next
    case (Some u)
    then have u: "u \<in> set (timers s)" "due u \<le> T'"
      by (auto simp: find_Some_iff)
    from "1.prems"(1) obtain t where t: "t \<in> set (timers s)" "for_promise t = p" "due t = T"
      by (auto simp: armed_def)
    have "for_promise u \<noteq> p"
    proof
      assume "for_promise u = p"
      with u(1) t(1,2) timers_ok_inj(2)[OF armedD(2)[OF "1.prems"(1)]] have "u = t"
        by (auto dest: inj_onD)
      with u(2) t(3) "1.prems"(2) show False by simp
    qed
    from armed_fire_other[OF "1.prems"(1) u(1) this] "1.IH"[OF Some] "1.prems"(2) Some
    show ?thesis by (simp add: run_timers.simps[of T' s])
  qed
qed

lemma armed_advance_before:
  "armed p rid T s \<Longrightarrow> now s + d < T \<Longrightarrow> armed p rid T (advance d s)"
  by (simp add: advance_def armed_run_timers_before)

lemma armed_callback_other:
  assumes a: "armed p rid T s" and m: "map_of (pendingRequests s) r = Some pr"
    and ne: "r \<noteq> rid" and v: "v \<noteq> Pending"
  shows "armed p rid T (settle (promise pr) v src
           (clearTimeout (timeout pr) s
              \<lparr>pendingRequests := AList.delete r (pendingRequests (clearTimeout (timeout pr) s))\<rparr>))"
proof -
  from a obtain t where t: "t \<in> set (timers s)" "for_promise t = p" "for_request t = rid" "due t = T"
    by (auto simp: armed_def)
  from table_okD[OF armedD(3)[OF a] m] obtain u where u: "u \<in> set (timers s)" "tid u = timeout pr"
    "for_request u = r" by blast
  from ne t(3) u(3) have "u \<noteq> t" by auto
  with u(1) t(1) timers_ok_inj(1)[OF armedD(2)[OF a]] have "tid t \<noteq> timeout pr"
    unfolding u(2)[symmetric] by (auto dest: inj_onD)
  with t have "\<exists>t \<in> set (filter (\<lambda>x. tid x \<noteq> timeout pr) (timers s)).
      for_promise t = p \<and> for_request t = rid \<and> due t = T"
    by auto
  with consistent_callback[OF armedD(1)[OF a] m v, of src] show ?thesis
    by (simp add: armed_def clearTimeout_def)
qed

lemma armed_registerRequest:
  assumes a: "armed p rid T s"
  shows "armed p rid T (snd (registerRequest r s))"
  using a consistent_registerRequest[OF armedD(1)[OF a], of r]
  by (auto simp: armed_def registerRequest_def Let_def)

lemma now_step [simp]: "now (step e s) = now s + duration e"
  by (cases e)
     (simp_all add: registerRequest_def get_x_success_def get_x_error_def get_x_cancel_def
        stop_def resolve_def clearTimeout_def Let_def split: option.splits listener.splits)

lemma armed_step:
  assumes a: "armed p rid T s" and l: "leaves_alone rid e" and d: "now s + duration e < T"
  shows "armed p rid T (step e s)"
proof (cases e)
  case (Register r)
  with a show ?thesis by (simp add: armed_registerRequest)
next
  case (GetSuccess r q)
  with a l show ?thesis
    by (auto simp: get_x_success_def resolve_def Let_def split: option.splits
             intro!: armed_callback_other)
next
  case (GetError r q)
  with a l show ?thesis
    by (auto simp: get_x_error_def resolve_def Let_def split: option.splits
             intro!: armed_callback_other)
next
  case (GetCancel r)
  with a l show ?thesis
    by (auto simp: get_x_cancel_def resolve_def Let_def split: option.splits
             intro!: armed_callback_other)
next
  case (Elapse x)
  with a d show ?thesis by (simp add: armed_advance_before)
next
  case Stop
  with l show ?thesis by simp
qed

lemma armed_run:
  "armed p rid T s \<Longrightarrow> list_all (leaves_alone rid) es \<Longrightarrow> now s + elapsed es < T \<Longrightarrow>
   armed p rid T (run es s) \<and> now (run es s) = now s + elapsed es"
proof (induction es arbitrary: s)
  case Nil
  then show ?case by (simp add: run_def elapsed_def)
next
  case (Cons e es)
  from Cons.prems have a1: "armed p rid T (step e s)"
    by (intro armed_step) (simp_all add: elapsed_def)
  from Cons.prems have "now (step e s) + elapsed es < T"
    by (simp add: elapsed_def)
  from Cons.IH[OF a1 _ this] Cons.prems(2) show ?case
    by (simp add: run_def elapsed_def)
qed

lemma timed_out_fire:
  assumes "timed_out p rid s"
  shows "timed_out p rid (fire u s)"
  using assms
  by (auto simp: timed_out_def fire_def timeout_callback_def reject_def promises_settle
        delete_conv' nth_list_update)

lemma timed_out_run_timers: "timed_out p rid s \<Longrightarrow> timed_out p rid (run_timers T s)"
proof (induction T s rule: run_timers.induct)
  case (1 T s)
  show ?case
  proof (cases "find (\<lambda>t. due t \<le> T) (timers s)")
    case None
    with "1.prems" show ?thesis by (simp add: run_timers.simps)
  next
    case (Some u)
    from "1.IH"[OF Some timed_out_fire[OF "1.prems"]] Some show ?thesis
      by (simp add: run_timers.simps[of T s])
  qed
qed

lemma timed_out_fire_armed:
  assumes a: "armed p rid T s" and u: "u \<in> set (timers s)" and p: "for_promise u = p"
  shows "timed_out p rid (fire u s)"
proof -
  from a obtain t where t: "t \<in> set (timers s)" "for_promise t = p" "for_request t = rid"
    by (auto simp: armed_def)
  with u p timers_ok_inj(2)[OF armedD(2)[OF a]] have "u = t"
    by (auto dest: inj_onD)
  with t armedD(4,5)[OF a] show ?thesis
    by (simp add: timed_out_def fire_def timeout_callback_def reject_def promises_settle)
qed

lemma armed_run_timers_after:
  "armed p rid T s \<Longrightarrow> T \<le> T' \<Longrightarrow> timed_out p rid (run_timers T' s)"
proof (induction T' s rule: run_timers.induct)
  case (1 T' s)
  from "1.prems" obtain t where t: "t \<in> set (timers s)" "due t \<le> T'"
    by (auto simp: armed_def)
  then obtain u where Some: "find (\<lambda>t. due t \<le> T') (timers s) = Some u"
    by (cases "find (\<lambda>t. due t \<le> T') (timers s)") (auto simp: find_None_iff)
  then have u: "u \<in> set (timers s)"
    by (auto simp: find_Some_iff)
  show ?case
  proof (cases "for_promise u = p")
    case True
    from timed_out_run_timers[OF timed_out_fire_armed[OF "1.prems"(1) u True]] Some
    show ?thesis by (simp add: run_timers.simps[of T' s])
  next
    case False
    from "1.IH"[OF Some armed_fire_other[OF "1.prems"(1) u False] "1.prems"(2)] Some
    show ?thesis by (simp add: run_timers.simps[of T' s])
  qed
qed

lemma timed_out_now [simp]: "timed_out p rid (s\<lparr>now := n\<rparr>) = timed_out p rid s"
  by (simp add: timed_out_def)

lemma string_of_REQUEST_TIMEOUT: "string_of_nat REQUEST_TIMEOUT = ''30000''"
  by (simp add: REQUEST_TIMEOUT_def string_of_nat.simps)

section \<open>Facts about registering again and about stop\<close>

lemma in_set_updateD:
  "(k', v') \<in> set (AList.update k v al) \<Longrightarrow> (k', v') = (k, v) \<or> (k', v') \<in> set al"
  by (induction al) (auto split: if_splits)

lemma calls_stop_entries:
  "calls (fold stop_entry es s) = calls s @ map (\<lambda>e. (promise (snd e), ByStop)) es"
  by (induction es arbitrary: s) (simp_all add: stop_entry_def reject_def clearTimeout_def)

lemma orphaned_finish:
  assumes o: "orphaned p s" and c: "consistent s'"
    and L: "length (promises s') = length (promises s)"
    and E: "set (pendingRequests s') \<subseteq> set (pendingRequests s)"
    and C: "calls s' = calls s @ [(q, src)]"
    and ok: "q \<noteq> p \<or> src = ByTimeout"
  shows "orphaned p s'"
  using assms by (auto simp: orphaned_def)

lemma orphaned_fire:
  assumes o: "orphaned p s" and t: "t \<in> set (timers s)"
  shows "orphaned p (fire t s)"
proof (rule orphaned_finish[OF o, where q = "for_promise t" and src = ByTimeout])
  from o have "consistent s" by (simp add: orphaned_def)
  then show "consistent (fire t s)" using t by (rule consistent_fire)
qed (auto simp: fire_def timeout_callback_def reject_def AList.delete_eq)

lemma orphaned_callback:
  assumes o: "orphaned p s" and m: "map_of (pendingRequests s) r = Some pr" and v: "v \<noteq> Pending"
  shows "orphaned p (settle (promise pr) v src
           (clearTimeout (timeout pr) s
              \<lparr>pendingRequests := AList.delete r (pendingRequests (clearTimeout (timeout pr) s))\<rparr>))"
proof (rule orphaned_finish[OF o, where q = "promise pr" and src = src])
  from o have "consistent s" by (simp add: orphaned_def)
  from consistent_callback[OF this m v]
  show "consistent (settle (promise pr) v src
           (clearTimeout (timeout pr) s
              \<lparr>pendingRequests := AList.delete r (pendingRequests (clearTimeout (timeout pr) s))\<rparr>))" .
  from m have "(r, pr) \<in> set (pendingRequests s)" by (rule map_of_SomeD)
  with o show "promise pr \<noteq> p \<or> src = ByTimeout" by (auto simp: orphaned_def)
qed (auto simp: clearTimeout_def AList.delete_eq)

lemma orphaned_run_timers: "orphaned p s \<Longrightarrow> orphaned p (run_timers T s)"
proof (induction T s rule: run_timers.induct)
  case (1 T s)
  show ?case
  proof (cases "find (\<lambda>t. due t \<le> T) (timers s)")
    case None
    with "1.prems" show ?thesis by (simp add: run_timers.simps)
  next
    case (Some t)
    then have "t \<in> set (timers s)" by (auto simp: find_Some_iff)
    from "1.IH"[OF Some orphaned_fire[OF "1.prems" this]] Some show ?thesis
      by (simp add: run_timers.simps[of T s])
  qed
qed

lemma orphaned_now [simp]: "orphaned p (s\<lparr>now := n\<rparr>) = orphaned p s"
  by (simp add: orphaned_def)

lemma orphaned_registerRequest:
  assumes o: "orphaned p s"
  shows "orphaned p (snd (registerRequest r s))"
proof -
  from o have c: "consistent s" by (simp add: orphaned_def)
  have "promise pr \<noteq> p" if "(rid, pr) \<in> set (pendingRequests (snd (registerRequest r s)))" for rid pr
  proof -
    from that have "(rid, pr) = (r, \<lparr>promise = length (promises s), timeout = next_timer s\<rparr>) \<or>
        (rid, pr) \<in> set (pendingRequests s)"
      by (auto simp: registerRequest_def Let_def dest: in_set_updateD)
    with o show ?thesis by (auto simp: orphaned_def)
  qed
  with o consistent_registerRequest[OF c, of r] show ?thesis
    by (auto simp: orphaned_def) (auto simp: registerRequest_def Let_def)
qed

lemma orphaned_stop:
  assumes o: "orphaned p s"
  shows "orphaned p (snd (stop s))"
proof -
  from o have c: "consistent s" by (simp add: orphaned_def)
  have C: "calls (snd (stop s)) = calls s @ map (\<lambda>e. (promise (snd e), ByStop)) (pendingRequests s)"
    and E: "pendingRequests (snd (stop s)) = []"
    and L: "length (promises (snd (stop s))) = length (promises s)"
    by (simp_all add: stop_def Let_def calls_stop_entries split: listener.splits)
  from o have "\<forall>c \<in> set (calls (snd (stop s))). fst c = p \<longrightarrow> snd c = ByTimeout"
    unfolding C by (auto simp: orphaned_def)
  with o consistent_stop[OF c] E L show ?thesis
    by (simp add: orphaned_def)
qed

lemma orphaned_step: "orphaned p s \<Longrightarrow> orphaned p (step e s)"
proof (cases e)
  case (Register r)
  assume "orphaned p s"
  with Register show ?thesis by (simp add: orphaned_registerRequest)
next
  case (GetSuccess r q)
  assume "orphaned p s"
  with GetSuccess show ?thesis
    by (auto simp: get_x_success_def resolve_def Let_def split: option.splits intro!: orphaned_callback)
next
  case (GetError r q)
  assume "orphaned p s"
  with GetError show ?thesis
    by (auto simp: get_x_error_def resolve_def Let_def split: option.splits intro!: orphaned_callback)
next
  case (GetCancel r)
  assume "orphaned p s"
  with GetCancel show ?thesis
    by (auto simp: get_x_cancel_def resolve_def Let_def split: option.splits intro!: orphaned_callback)
next
  case (Elapse d)
  assume "orphaned p s"
  with Elapse show ?thesis by (simp add: advance_def orphaned_run_timers)
next
  case Stop
  assume "orphaned p s"
  with Stop show ?thesis by (simp add: orphaned_stop)
qed

lemma orphaned_run: "orphaned p s \<Longrightarrow> orphaned p (run es s)"
  unfolding run_def by (induction es arbitrary: s) (simp_all add: orphaned_step)

lemma no_orphansD:
  assumes "no_orphans s" and "t \<in> set (timers s)"
  shows "\<exists>rid pr. (rid, pr) \<in> set (pendingRequests s) \<and> timeout pr = tid t"
  using assms by (fastforce simp: no_orphans_def)

lemma entry_of_timer:
  assumes c: "consistent s" and n: "no_orphans s" and t: "t \<in> set (timers s)"
  shows "\<exists>pr. (for_request t, pr) \<in> set (pendingRequests s) \<and> timeout pr = tid t"
proof -
  from c have ok: "timers_ok s" and tab: "table_ok s" by (simp_all add: consistent_def)
  from no_orphansD[OF n t] obtain rid pr where e: "(rid, pr) \<in> set (pendingRequests s)"
    "timeout pr = tid t" by blast
  from tab e(1) obtain x where x: "x \<in> set (timers s)" "tid x = timeout pr" "for_request x = rid"
    by (auto simp: table_ok_def)
  with e(2) t timers_ok_inj(1)[OF ok] have "x = t" by (auto dest: inj_onD)
  with x(3) e show ?thesis by auto
qed

lemma no_orphans_finish:
  assumes c: "consistent s" and n: "no_orphans s" and t: "t \<in> set (timers s)"
    and T: "timers s' = filter (\<lambda>x. tid x \<noteq> tid t) (timers s)"
    and E: "pendingRequests s' = AList.delete (for_request t) (pendingRequests s)"
  shows "no_orphans s'"
  unfolding no_orphans_def
proof
  fix u assume "u \<in> set (timers s')"
  then have u: "u \<in> set (timers s)" "tid u \<noteq> tid t" unfolding T by auto
  from c have dk: "distinct (map fst (pendingRequests s))"
    by (simp add: consistent_def table_ok_def)
  from entry_of_timer[OF c n u(1)] obtain pr where pr: "(for_request u, pr) \<in> set (pendingRequests s)"
    "timeout pr = tid u" by blast
  from entry_of_timer[OF c n t] obtain pt where pt: "(for_request t, pt) \<in> set (pendingRequests s)"
    "timeout pt = tid t" by blast
  have "for_request u \<noteq> for_request t"
  proof
    assume "for_request u = for_request t"
    with pr(1) pt(1) dk have "pr = pt"
      by (metis map_of_eq_Some_iff option.inject)
    with pr(2) pt(2) u(2) show False by simp
  qed
  with pr have "(for_request u, pr) \<in> set (pendingRequests s')"
    unfolding E by (auto simp: AList.delete_eq)
  with pr(2) show "\<exists>(rid, pr) \<in> set (pendingRequests s'). timeout pr = tid u"
    by auto
qed

lemma no_orphans_fire:
  assumes "consistent s" and "no_orphans s" and "t \<in> set (timers s)"
  shows "no_orphans (fire t s)"
  by (rule no_orphans_finish[OF assms]) (simp_all add: fire_def timeout_callback_def reject_def)

lemma no_orphans_callback:
  assumes c: "consistent s" and n: "no_orphans s" and m: "map_of (pendingRequests s) r = Some pr"
  shows "no_orphans (settle (promise pr) v src
           (clearTimeout (timeout pr) s
              \<lparr>pendingRequests := AList.delete r (pendingRequests (clearTimeout (timeout pr) s))\<rparr>))"
proof -
  from c have tab: "table_ok s" by (simp add: consistent_def)
  from table_okD[OF tab m] obtain t where t: "t \<in> set (timers s)" "tid t = timeout pr"
    "for_request t = r" by blast
  show ?thesis
    by (rule no_orphans_finish[OF c n t(1)]) (use t in \<open>simp_all add: clearTimeout_def\<close>)
qed

lemma no_orphans_run_timers:
  "consistent s \<Longrightarrow> no_orphans s \<Longrightarrow> no_orphans (run_timers T s)"
proof (induction T s rule: run_timers.induct)
  case (1 T s)
  show ?case
  proof (cases "find (\<lambda>t. due t \<le> T) (timers s)")
    case None
    with "1.prems" show ?thesis by (simp add: run_timers.simps)
  next
    case (Some t)
    then have t: "t \<in> set (timers s)" by (auto simp: find_Some_iff)
    from "1.IH"[OF Some consistent_fire[OF "1.prems"(1) t] no_orphans_fire[OF "1.prems" t]] Some
    show ?thesis by (simp add: run_timers.simps[of T s])
  qed
qed

lemma no_orphans_now [simp]: "no_orphans (s\<lparr>now := n\<rparr>) = no_orphans s"
  by (simp add: no_orphans_def)

lemma no_orphans_registerRequest:
  assumes c: "consistent s" and n: "no_orphans s" and f: "map_of (pendingRequests s) r = None"
  shows "no_orphans (snd (registerRequest r s))"
  unfolding no_orphans_def
proof
  let ?s' = "snd (registerRequest r s)"
  let ?new = "\<lparr>promise = length (promises s), timeout = next_timer s\<rparr>"
  fix u assume "u \<in> set (timers ?s')"
  then have u: "u \<in> set (timers s) \<or> tid u = next_timer s"
    by (auto simp: registerRequest_def Let_def)
  from consistent_registerRequest[OF c, of r] have d': "distinct (map fst (pendingRequests ?s'))"
    by (simp add: consistent_def table_ok_def)
  have E: "map_of (pendingRequests ?s') = (map_of (pendingRequests s))(r \<mapsto> ?new)"
    by (simp add: registerRequest_def Let_def update_conv')
  from c have dk: "distinct (map fst (pendingRequests s))"
    by (simp add: consistent_def table_ok_def)
  from u show "\<exists>(rid, pr) \<in> set (pendingRequests ?s'). timeout pr = tid u"
  proof
    assume "u \<in> set (timers s)"
    from no_orphansD[OF n this] obtain rid pr where e: "(rid, pr) \<in> set (pendingRequests s)"
      "timeout pr = tid u" by blast
    with dk have m: "map_of (pendingRequests s) rid = Some pr" by simp
    with f have "rid \<noteq> r" by auto
    with m E have "map_of (pendingRequests ?s') rid = Some pr" by simp
    then have "(rid, pr) \<in> set (pendingRequests ?s')" by (rule map_of_SomeD)
    with e(2) show ?thesis by auto
  next
    assume t: "tid u = next_timer s"
    from E have "map_of (pendingRequests ?s') r = Some ?new" by simp
    then have "(r, ?new) \<in> set (pendingRequests ?s')" by (rule map_of_SomeD)
    with t show ?thesis by force
  qed
qed

lemma no_orphans_stop:
  assumes "no_orphans s"
  shows "timers (snd (stop s)) = []" and "no_orphans (snd (stop s))"
proof -
  have T: "timers (snd (stop s)) =
      filter (\<lambda>t. tid t \<notin> (timeout \<circ> snd) ` set (pendingRequests s)) (timers s)"
    by (simp add: stop_def Let_def timers_stop_entries split: listener.splits)
  from assms show "timers (snd (stop s)) = []"
    unfolding T by (force simp: filter_empty_conv no_orphans_def)
  then show "no_orphans (snd (stop s))"
    by (simp add: no_orphans_def)
qed

lemma no_orphans_run:
  "consistent s \<Longrightarrow> no_orphans s \<Longrightarrow> registers_fresh es s \<Longrightarrow> no_orphans (run es s)"
proof (induction es s rule: registers_fresh.induct)
  case (1 s)
  then show ?case by (simp add: run_def)
next
  case (2 r es s)
  from "2.prems" have "no_orphans (step (Register r) s)"
    by (simp add: no_orphans_registerRequest)
  with "2.IH" "2.prems" consistent_step[of s "Register r"] show ?case
    by (simp add: run_def)
next
  case (3 r q es s)
  from "3.prems" have "no_orphans (step (GetSuccess r q) s)"
    by (auto simp: get_x_success_def resolve_def Let_def split: option.splits
             intro!: no_orphans_callback)
  with "3.IH" "3.prems" consistent_step[of s "GetSuccess r q"] show ?case
    by (simp add: run_def)
next
  case (4 r q es s)
  from "4.prems" have "no_orphans (step (GetError r q) s)"
    by (auto simp: get_x_error_def resolve_def Let_def split: option.splits
             intro!: no_orphans_callback)
  with "4.IH" "4.prems" consistent_step[of s "GetError r q"] show ?case
    by (simp add: run_def)
next
  case (5 r es s)
  from "5.prems" have "no_orphans (step (GetCancel r) s)"
    by (auto simp: get_x_cancel_def resolve_def Let_def split: option.splits
             intro!: no_orphans_callback)
  with "5.IH" "5.prems" consistent_step[of s "GetCancel r"] show ?case
    by (simp add: run_def)
next
  case (6 d es s)
  from "6.prems" have "no_orphans (step (Elapse d) s)"
    by (simp add: advance_def no_orphans_run_timers)
  with "6.IH" "6.prems" consistent_step[of s "Elapse d"] show ?case
    by (simp add: run_def)
next
  case (7 es s)
  from "7.prems" have "no_orphans (step Stop s)"
    by (simp add: no_orphans_stop)
  with "7.IH" "7.prems" consistent_step[of s Stop] show ?case
    by (simp add: run_def)
qed

lemma no_orphans_new: "no_orphans new_CallbackServer"
  by (simp add: no_orphans_def new_CallbackServer_def)

lemma no_orphans_start: "no_orphans s \<Longrightarrow> no_orphans (snd (start got listen_error s))"
  by (auto simp: start_def Let_def no_orphans_def split: sum.splits option.splits)

section \<open>Facts about the entry of a request\<close>

lemma heldD:
  assumes "held p rid entry T s"
  shows "armed p rid T s" and "map_of (pendingRequests s) rid = Some entry"
    and "\<And>t. t \<in> set (timers s) \<Longrightarrow> for_request t = rid \<Longrightarrow> for_promise t = p"
  using assms by (auto simp: held_def)

lemma held_now [simp]: "held p rid entry T (s\<lparr>now := n\<rparr>) = held p rid entry T s"
  by (simp add: held_def)

lemma held_registerRequest_new:
  assumes c: "consistent s" and f: "\<forall>t \<in> set (timers s). for_request t \<noteq> rid"
  shows "held (fst (registerRequest rid s)) rid
           \<lparr>promise = length (promises s), timeout = next_timer s\<rparr>
           (now s + REQUEST_TIMEOUT) (snd (registerRequest rid s))"
proof -
  have T: "timers (snd (registerRequest rid s)) = timers s @
      [\<lparr>tid = next_timer s, due = now s + REQUEST_TIMEOUT, for_request = rid,
        for_promise = length (promises s)\<rparr>]"
    and p: "fst (registerRequest rid s) = length (promises s)"
    and E: "map_of (pendingRequests (snd (registerRequest rid s))) rid =
      Some \<lparr>promise = length (promises s), timeout = next_timer s\<rparr>"
    by (simp_all add: registerRequest_def Let_def update_conv')
  have "for_promise t = length (promises s)"
    if t: "t \<in> set (timers (snd (registerRequest rid s)))" "for_request t = rid" for t
  proof -
    from t(1) have "t \<in> set (timers s) \<or>
        t = \<lparr>tid = next_timer s, due = now s + REQUEST_TIMEOUT, for_request = rid,
             for_promise = length (promises s)\<rparr>"
      unfolding T by auto
    then show ?thesis
    proof
      assume "t \<in> set (timers s)"
      with f t(2) show ?thesis by blast
    next
      assume e: "t = \<lparr>tid = next_timer s, due = now s + REQUEST_TIMEOUT, for_request = rid,
             for_promise = length (promises s)\<rparr>"
      show ?thesis by (subst e) simp
    qed
  qed
  with armed_registerRequest_new[OF c, of rid] E p show ?thesis
    unfolding held_def by simp
qed

lemma held_registerRequest_other:
  assumes h: "held p rid entry T s" and ne: "r \<noteq> rid"
  shows "held p rid entry T (snd (registerRequest r s))"
  using armed_registerRequest[OF heldD(1)[OF h], of r] heldD(2,3)[OF h] ne
  by (auto simp: held_def) (auto simp: registerRequest_def Let_def update_conv')

lemma held_callback_other:
  assumes h: "held p rid entry T s" and m: "map_of (pendingRequests s) r = Some pr"
    and ne: "r \<noteq> rid" and v: "v \<noteq> Pending"
  shows "held p rid entry T (settle (promise pr) v src
           (clearTimeout (timeout pr) s
              \<lparr>pendingRequests := AList.delete r (pendingRequests (clearTimeout (timeout pr) s))\<rparr>))"
  using armed_callback_other[OF heldD(1)[OF h] m ne v, of src] heldD(2,3)[OF h] ne
  by (auto simp: held_def) (auto simp: clearTimeout_def delete_conv')

lemma held_fire_other:
  assumes h: "held p rid entry T s" and u: "u \<in> set (timers s)" and ne: "for_promise u \<noteq> p"
  shows "held p rid entry T (fire u s)"
proof -
  from heldD(3)[OF h u] ne have "for_request u \<noteq> rid" by auto
  with armed_fire_other[OF heldD(1)[OF h] u ne] heldD(2,3)[OF h] show ?thesis
    by (auto simp: held_def) (auto simp: fire_def timeout_callback_def reject_def delete_conv')
qed

lemma held_run_timers_before:
  "held p rid entry T s \<Longrightarrow> T' < T \<Longrightarrow> held p rid entry T (run_timers T' s)"
proof (induction T' s rule: run_timers.induct)
  case (1 T' s)
  show ?case
  proof (cases "find (\<lambda>t. due t \<le> T') (timers s)")
    case None
    with "1.prems" show ?thesis by (simp add: run_timers.simps)
  next
    case (Some u)
    then have u: "u \<in> set (timers s)" "due u \<le> T'"
      by (auto simp: find_Some_iff)
    note a = heldD(1)[OF "1.prems"(1)]
    from a obtain t where t: "t \<in> set (timers s)" "for_promise t = p" "due t = T"
      by (auto simp: armed_def)
    have "for_promise u \<noteq> p"
    proof
      assume "for_promise u = p"
      with u(1) t(1,2) timers_ok_inj(2)[OF armedD(2)[OF a]] have "u = t"
        by (auto dest: inj_onD)
      with u(2) t(3) "1.prems"(2) show False by simp
    qed
    from held_fire_other[OF "1.prems"(1) u(1) this] "1.IH"[OF Some] "1.prems"(2) Some
    show ?thesis by (simp add: run_timers.simps[of T' s])
  qed
qed

lemma held_step:
  assumes h: "held p rid entry T s" and l: "leaves_alone rid e" and r: "e \<noteq> Register rid"
    and d: "now s + duration e < T"
  shows "held p rid entry T (step e s)"
proof (cases e)
  case (Register x)
  with h r show ?thesis by (simp add: held_registerRequest_other)
next
  case (GetSuccess x q)
  with h l show ?thesis
    by (auto simp: get_x_success_def resolve_def Let_def split: option.splits
             intro!: held_callback_other)
next
  case (GetError x q)
  with h l show ?thesis
    by (auto simp: get_x_error_def resolve_def Let_def split: option.splits
             intro!: held_callback_other)
next
  case (GetCancel x)
  with h l show ?thesis
    by (auto simp: get_x_cancel_def resolve_def Let_def split: option.splits
             intro!: held_callback_other)
next
  case (Elapse x)
  with h d show ?thesis by (simp add: advance_def held_run_timers_before)
next
  case Stop
  with l show ?thesis by simp
qed

lemma held_run:
  "held p rid entry T s \<Longrightarrow> list_all (leaves_alone rid) es \<Longrightarrow> Register rid \<notin> set es \<Longrightarrow>
   now s + elapsed es < T \<Longrightarrow> held p rid entry T (run es s)"
proof (induction es arbitrary: s)
  case Nil
  then show ?case by (simp add: run_def)
next
  case (Cons e es)
  from Cons.prems have h1: "held p rid entry T (step e s)"
    by (intro held_step) (auto simp: elapsed_def)
  from Cons.prems have "now (step e s) + elapsed es < T"
    by (simp add: elapsed_def)
  from Cons.IH[OF h1 _ _ this] Cons.prems(2,3) show ?case
    by (simp add: run_def)
qed

section \<open>The claims\<close>

text \<open>
  C1. In every state that events reach from a new server, each promise has been settled
  by at most one call of its \<open>resolve\<close> or \<open>reject\<close>, whichever of the success, error and
  cancel callbacks, the timeout and \<open>stop\<close> made it. Each of the three callbacks and the
  timeout leaves the table without an entry for its identifier, and a callback for an
  identifier without an entry changes nothing; every callback is answered with status
  200 and the body \<open>OK\<close>.
\<close>

theorem exactly_once_settlement:
  "length (filter (\<lambda>call. fst call = p) (calls (run es new_CallbackServer))) \<le> 1 \<and>
   map_of (pendingRequests (snd (get_x_success requestId q s))) requestId = None \<and>
   map_of (pendingRequests (snd (get_x_error requestId q s))) requestId = None \<and>
   map_of (pendingRequests (snd (get_x_cancel requestId s))) requestId = None \<and>
   map_of (pendingRequests (fire t s)) (for_request t) = None \<and>
   (map_of (pendingRequests s) requestId = None \<longrightarrow>
      get_x_success requestId q s = (\<lparr>status = 200, body = ''OK''\<rparr>, s) \<and>
      get_x_error requestId q s = (\<lparr>status = 200, body = ''OK''\<rparr>, s) \<and>
      get_x_cancel requestId s = (\<lparr>status = 200, body = ''OK''\<rparr>, s)) \<and>
   fst (get_x_success requestId q s) = \<lparr>status = 200, body = ''OK''\<rparr> \<and>
   fst (get_x_error requestId q s) = \<lparr>status = 200, body = ''OK''\<rparr> \<and>
   fst (get_x_cancel requestId s) = \<lparr>status = 200, body = ''OK''\<rparr>"
proof -
  have "consistent (run es new_CallbackServer)"
    by (rule consistent_run[OF consistent_new])
  then have "distinct (map fst (calls (run es new_CallbackServer)))"
    by (simp add: consistent_def timers_ok_def)
  then have 1: "length (filter (\<lambda>call. fst call = p) (calls (run es new_CallbackServer))) \<le> 1"
    by (rule at_most_one_call)
  have 2: "map_of (pendingRequests (snd (get_x_success requestId q s))) requestId = None"
    by (simp add: get_x_success_def Let_def resolve_def clearTimeout_def split: option.splits)
  have 3: "map_of (pendingRequests (snd (get_x_error requestId q s))) requestId = None"
    by (simp add: get_x_error_def Let_def resolve_def clearTimeout_def split: option.splits)
  have 4: "map_of (pendingRequests (snd (get_x_cancel requestId s))) requestId = None"
    by (simp add: get_x_cancel_def Let_def resolve_def clearTimeout_def split: option.splits)
  have 5: "map_of (pendingRequests (fire t s)) (for_request t) = None"
    by (simp add: fire_def timeout_callback_def reject_def)
  have 6: "map_of (pendingRequests s) requestId = None \<longrightarrow>
      get_x_success requestId q s = (\<lparr>status = 200, body = ''OK''\<rparr>, s) \<and>
      get_x_error requestId q s = (\<lparr>status = 200, body = ''OK''\<rparr>, s) \<and>
      get_x_cancel requestId s = (\<lparr>status = 200, body = ''OK''\<rparr>, s)"
    by (simp add: get_x_success_def get_x_error_def get_x_cancel_def OK_def)
  have 7: "fst (get_x_success requestId q s) = \<lparr>status = 200, body = ''OK''\<rparr>"
    "fst (get_x_error requestId q s) = \<lparr>status = 200, body = ''OK''\<rparr>"
    "fst (get_x_cancel requestId s) = \<lparr>status = 200, body = ''OK''\<rparr>"
    by (simp_all add: get_x_success_def get_x_error_def get_x_cancel_def OK_def Let_def
          split: option.splits)
  from 1 2 3 4 5 6 7 show ?thesis
    by blast
qed

theorem exactly_once_settlement_witness:
  "calls (run [Register ''a'', GetSuccess ''a'' [], GetCancel ''a'', Elapse 30000] new_CallbackServer) =
     [(0, BySuccess)] \<and>
   map_of (pendingRequests (snd (get_x_success ''a'' [] (snd (registerRequest ''a'' new_CallbackServer)))))
     ''a'' = None \<and>
   get_x_cancel ''a'' (snd (get_x_success ''a'' [] (snd (registerRequest ''a'' new_CallbackServer)))) =
     (\<lparr>status = 200, body = ''OK''\<rparr>,
      snd (get_x_success ''a'' [] (snd (registerRequest ''a'' new_CallbackServer)))) \<and>
   length (filter (\<lambda>call. fst call = 0)
     (calls (run [Register ''a'', GetSuccess ''a'' [], GetCancel ''a'', Elapse 30000] new_CallbackServer))) \<le> 1"
proof -
  let ?s1 = "snd (registerRequest ''a'' new_CallbackServer)"
  let ?s2 = "snd (get_x_success ''a'' [] ?s1)"
  note t = exactly_once_settlement[of 0 "[Register ''a'', GetSuccess ''a'' [], GetCancel ''a'', Elapse 30000]"
      "''a''" "[]" ?s1 "\<lparr>tid = 0, due = 30000, for_request = ''a'', for_promise = 0\<rparr>"]
  note u = exactly_once_settlement[of 0 "[]" "''a''" "[]" ?s2
      "\<lparr>tid = 0, due = 30000, for_request = ''a'', for_promise = 0\<rparr>"]
  have absent: "map_of (pendingRequests ?s2) ''a'' = None"
    using t by blast
  with u have noop: "get_x_cancel ''a'' ?s2 = (\<lparr>status = 200, body = ''OK''\<rparr>, ?s2)"
    by blast
  have c: "calls (run [Register ''a'', GetSuccess ''a'' [], GetCancel ''a'', Elapse 30000] new_CallbackServer) =
     [(0, BySuccess)]"
    by (simp add: run_def registerRequest_def get_x_success_def get_x_cancel_def new_CallbackServer_def
          Let_def clearTimeout_def resolve_def settle_def advance_def run_timers.simps)
  from absent noop c t show ?thesis
    by blast
qed

text \<open>
  C2 (amended). Registering an identifier that is still outstanding is no error in the
  code: \<open>registerRequest\<close> returns a new pending promise and stores an entry for it in
  place of the old one. Right after the call the earlier promise is pending, no entry of
  the table refers to it, and its timer is live; and whatever events follow, no call
  other than that of its own timeout settles the earlier promise.
\<close>

theorem registerRequest_overwrites:
  assumes "consistent s" and "map_of (pendingRequests s) requestId = Some old"
  shows "fst (registerRequest requestId s) = length (promises s) \<and>
    promises (snd (registerRequest requestId s)) = promises s @ [Pending] \<and>
    map_of (pendingRequests (snd (registerRequest requestId s))) requestId =
      Some \<lparr>promise = length (promises s), timeout = next_timer s\<rparr> \<and>
    promise old < length (promises s) \<and>
    promises s ! promise old = Pending \<and>
    (\<exists>t \<in> set (timers (snd (registerRequest requestId s))).
        tid t = timeout old \<and> for_promise t = promise old \<and> for_request t = requestId) \<and>
    (\<forall>rid pr. map_of (pendingRequests (snd (registerRequest requestId s))) rid = Some pr \<longrightarrow>
        promise pr \<noteq> promise old) \<and>
    (\<forall>es c. c \<in> set (calls (run es (snd (registerRequest requestId s)))) \<longrightarrow>
        fst c = promise old \<longrightarrow> snd c = ByTimeout)"
proof -
  from assms(1) have ok: "timers_ok s" and tab: "table_ok s"
    by (simp_all add: consistent_def)
  from table_okD[OF tab assms(2)] obtain t where t: "t \<in> set (timers s)" "tid t = timeout old"
    "for_promise t = promise old" "for_request t = requestId" by blast
  note tD = timers_okD[OF ok t(1)]
  let ?s' = "snd (registerRequest requestId s)"
  have c': "consistent ?s'"
    by (rule consistent_registerRequest[OF assms(1)])
  have E: "map_of (pendingRequests ?s') =
      (map_of (pendingRequests s))(requestId \<mapsto> \<lparr>promise = length (promises s), timeout = next_timer s\<rparr>)"
    by (simp add: registerRequest_def Let_def update_conv')
  have other: "promise pr \<noteq> promise old" if m: "map_of (pendingRequests ?s') rid = Some pr" for rid pr
  proof (cases "rid = requestId")
    case True
    with m E have "promise pr = length (promises s)" by auto
    with tD(2) t(3) show ?thesis by simp
  next
    case False
    with m E have "map_of (pendingRequests s) rid = Some pr" by simp
    from table_okD[OF tab this] obtain u where u: "u \<in> set (timers s)"
      "for_promise u = promise pr" "for_request u = rid" by blast
    with False t have "u \<noteq> t" by auto
    with u(1) t(1) timers_ok_inj(2)[OF ok] have "for_promise u \<noteq> for_promise t"
      by (auto dest: inj_onD)
    with u t show ?thesis by simp
  qed
  have d': "distinct (map fst (pendingRequests ?s'))"
    using c' by (simp add: consistent_def table_ok_def)
  have "orphaned (promise old) ?s'"
    unfolding orphaned_def
  proof (intro conjI)
    show "consistent ?s'" by (rule c')
    show "promise old < length (promises ?s')"
      using tD(2) t(3) by (simp add: registerRequest_def Let_def)
    show "\<forall>(rid, pr) \<in> set (pendingRequests ?s'). promise pr \<noteq> promise old"
      using other d' by (auto simp: map_of_eq_Some_iff)
    show "\<forall>c \<in> set (calls ?s'). fst c = promise old \<longrightarrow> snd c = ByTimeout"
      using tD(4) t(3) by (force simp: registerRequest_def Let_def)
  qed
  then have later: "\<forall>es c. c \<in> set (calls (run es ?s')) \<longrightarrow> fst c = promise old \<longrightarrow> snd c = ByTimeout"
    using orphaned_run[of "promise old" ?s'] by (auto simp: orphaned_def)
  have "\<exists>t \<in> set (timers ?s'). tid t = timeout old \<and> for_promise t = promise old \<and> for_request t = requestId"
    using t by (auto simp: registerRequest_def Let_def)
  with tD t E other later show ?thesis
    by (simp add: registerRequest_def Let_def)
qed

theorem registerRequest_overwrites_witness:
  "consistent (snd (registerRequest ''a'' new_CallbackServer)) \<and>
   map_of (pendingRequests (snd (registerRequest ''a'' new_CallbackServer))) ''a'' =
     Some \<lparr>promise = 0, timeout = 0\<rparr> \<and>
   fst (registerRequest ''a'' (snd (registerRequest ''a'' new_CallbackServer))) = 1 \<and>
   map_of (pendingRequests (snd (registerRequest ''a'' (snd (registerRequest ''a'' new_CallbackServer))))) ''a'' =
     Some \<lparr>promise = 1, timeout = 1\<rparr> \<and>
   promises (snd (registerRequest ''a'' new_CallbackServer)) ! 0 = Pending \<and>
   calls (run [GetSuccess ''a'' [], Stop, Elapse 30000]
           (snd (registerRequest ''a'' (snd (registerRequest ''a'' new_CallbackServer))))) =
     [(1, BySuccess), (0, ByTimeout)]"
proof -
  let ?s = "snd (registerRequest ''a'' new_CallbackServer)"
  let ?es = "[GetSuccess ''a'' [], Stop, Elapse 30000]"
  have c: "consistent ?s"
    by (rule consistent_registerRequest[OF consistent_new])
  have m: "map_of (pendingRequests ?s) ''a'' = Some \<lparr>promise = 0, timeout = 0\<rparr>"
    by (simp add: registerRequest_def new_CallbackServer_def Let_def)
  have l: "length (promises ?s) = 1" "next_timer ?s = 1"
    by (simp_all add: registerRequest_def new_CallbackServer_def Let_def)
  have k: "calls (run ?es (snd (registerRequest ''a'' ?s))) = [(1, BySuccess), (0, ByTimeout)]"
    by (simp add: run_def registerRequest_def get_x_success_def stop_def new_CallbackServer_def
          Let_def clearTimeout_def resolve_def reject_def settle_def advance_def run_timers.simps
          fire_def timeout_callback_def REQUEST_TIMEOUT_def)
  note r = registerRequest_overwrites[OF c m]
  from r c m l k show ?thesis
    by simp
qed

text \<open>
  C2 as stated fails: after two registrations of \<open>a\<close> on a new server the table holds
  the second entry only, and both promises are pending, with both timers live.
\<close>

theorem registerRequest_twice_counterexample:
  "pendingRequests (snd (registerRequest ''a'' (snd (registerRequest ''a'' new_CallbackServer)))) =
     [(''a'', \<lparr>promise = 1, timeout = 1\<rparr>)] \<and>
   pendingRequests (snd (registerRequest ''a'' new_CallbackServer)) =
     [(''a'', \<lparr>promise = 0, timeout = 0\<rparr>)] \<and>
   fst (registerRequest ''a'' (snd (registerRequest ''a'' new_CallbackServer))) = 1 \<and>
   promises (snd (registerRequest ''a'' (snd (registerRequest ''a'' new_CallbackServer)))) =
     [Pending, Pending] \<and>
   map tid (timers (snd (registerRequest ''a'' (snd (registerRequest ''a'' new_CallbackServer))))) =
     [0, 1]"
  by (simp add: registerRequest_def new_CallbackServer_def Let_def)

text \<open>
  C3 (the code departs from the claim). \<open>buildUrl\<close> serialises the parameters with
  \<^verbatim>\<open>URLSearchParams\<close>, which leaves \<open>*\<close> as it is: for the text \<open>a*b\<close> the URL carries
  \<^verbatim>\<open>text=a*b\<close>. The encoder \<open>encodeURIComponentSafe\<close> of the same class gives \<^verbatim>\<open>a%2Ab\<close>, but
  \<open>buildUrl\<close> does not call it.
\<close>

theorem buildUrl_asterisk_unescaped:
  "fst (buildUrl ''create'' [(''text'', PString ''a*b'')]
          \<lparr>callbackServer = new_CallbackServer\<lparr>port := 3000\<rparr>, randomUUID = (\<lambda>n. ''id''),
           minted = 0, app = (\<lambda>n url. Silent), opened = []\<rparr>) =
     (''drafts://x-callback-url/create?text=a*b&x-success=http%3A%2F%2Flocalhost%3A3000%2Fx-success%2Fid&x-error=http%3A%2F%2Flocalhost%3A3000%2Fx-error%2Fid&x-cancel=http%3A%2F%2Flocalhost%3A3000%2Fx-cancel%2Fid'',
      ''id'') \<and>
   encodeURIComponentSafe ''a*b'' = ''a%2Ab''"
  by (simp add: buildUrl_def getCallbackUrls_def new_CallbackServer_def Let_def append_param_def
        params_toString_def urlencoded_def urlencoded_byte_def is_alnum_def percent_byte_def
        hex_digit_def string_of_nat.simps encodeURIComponentSafe_def encodeURIComponent_def
        uri_unreserved_def toUpperCase_def toString16.simps)

text \<open>
  C4 (amended). When neither \<open>uuid\<close> nor \<open>title\<close> is given, every attempt of \<open>openDraft\<close>
  throws the validation error before it builds a URL, so that nothing is opened, no
  identifier is minted and no request is registered; the error is retried like any other:
  with \<open>maxRetries = N\<close> there are \<open>N + 1\<close> attempts and \<open>N\<close> delays (each as long as
  \<^verbatim>\<open>setTimeout\<close> makes it) before the error reaches the caller.
\<close>

theorem openDraft_validation_retried:
  assumes "falsy uid" and "falsy ttl" and "0 \<le> maxRetries c"
  shows "\<exists>w' tr. openDraft c uid ttl w =
             Some (Inl (Error ''Either uuid or title must be provided''), w', tr) \<and>
           length tr = nat (maxRetries c) + 1 \<and>
           delays_at_least (setTimeout_delay (retryDelay c)) tr \<and>
           now (callbackServer w') =
             now (callbackServer w) + setTimeout_delay (retryDelay c) * nat (maxRetries c) \<and>
           opened w' = opened w \<and> minted w' = minted w \<and>
           length (promises (callbackServer w')) = length (promises (callbackServer w))"
proof -
  let ?P = "\<lambda>v. opened v = opened w \<and> minted v = minted w \<and>
                length (promises (callbackServer v)) = length (promises (callbackServer w))"
  let ?E = "Error ''Either uuid or title must be provided''"
  let ?n = "nat (maxRetries c)"
  have "\<exists>e w' tr. executeWithRetry c (openDraft_attempt uid ttl) (int ?n) w = Some (Inl e, w', tr) \<and>
           length tr = ?n + 1 \<and> delays_at_least (setTimeout_delay (retryDelay c)) tr \<and>
           started (hd tr) = now (callbackServer w) \<and>
           finished (last tr) = now (callbackServer w') \<and>
           failure (last tr) = Some e \<and>
           (\<exists>w1. ?P w1 \<and> openDraft_attempt uid ttl w1 = Some (Inl e, w')) \<and>
           ?P w' \<and> e = ?E \<and>
           (\<lambda>v. now (callbackServer v)) w' =
             (\<lambda>v. now (callbackServer v)) w + 0 * (?n + 1) + setTimeout_delay (retryDelay c) * ?n"
    by (rule executeWithRetry_all_fail[where P = ?P and Q = "\<lambda>e. e = ?E"])
       (use assms in \<open>simp_all add: openDraft_attempt_def sleep_def\<close>)
  with assms(3) show ?thesis
    by (auto simp: openDraft_def)
qed

theorem openDraft_validation_retried_witness:
  "falsy None \<and> (0::int) \<le> maxRetries \<lparr>maxRetries = 1, retryDelay = 100\<rparr> \<and>
   (\<exists>w' tr. openDraft \<lparr>maxRetries = 1, retryDelay = 100\<rparr> None None
              \<lparr>callbackServer = new_CallbackServer, randomUUID = (\<lambda>n. ''id''), minted = 0,
               app = (\<lambda>n url. Silent), opened = []\<rparr> =
             Some (Inl (Error ''Either uuid or title must be provided''), w', tr) \<and>
           length tr = 2 \<and> now (callbackServer w') = 100 \<and> opened w' = [] \<and> minted w' = 0)"
proof -
  have f: "falsy None" by (simp add: falsy_def)
  have n: "(0::int) \<le> maxRetries \<lparr>maxRetries = 1, retryDelay = 100\<rparr>" by simp
  from openDraft_validation_retried[OF f f n,
        of "\<lparr>callbackServer = new_CallbackServer, randomUUID = (\<lambda>n. ''id''), minted = 0,
               app = (\<lambda>n url. Silent), opened = []\<rparr>"] f
  show ?thesis
    by (auto simp: new_CallbackServer_def setTimeout_delay_def TIMEOUT_MAX_def)
qed

text \<open>
  C4 as stated fails: with \<open>maxRetries = 1\<close> and \<open>retryDelay = 100\<close> the validation error
  is thrown twice and the clock has advanced by 100 milliseconds when it reaches the
  caller.
\<close>

theorem openDraft_validation_counterexample:
  "openDraft \<lparr>maxRetries = 1, retryDelay = 100\<rparr> None None
     \<lparr>callbackServer = new_CallbackServer, randomUUID = (\<lambda>n. ''id''), minted = 0,
      app = (\<lambda>n url. Silent), opened = []\<rparr> =
   Some (Inl (Error ''Either uuid or title must be provided''),
         \<lparr>callbackServer = new_CallbackServer\<lparr>now := 100\<rparr>, randomUUID = (\<lambda>n. ''id''), minted = 0,
          app = (\<lambda>n url. Silent), opened = []\<rparr>,
         [\<lparr>started = 0, finished = 0,
           failure = Some (Error ''Either uuid or title must be provided'')\<rparr>,
          \<lparr>started = 100, finished = 100,
           failure = Some (Error ''Either uuid or title must be provided'')\<rparr>])"
  by (simp add: openDraft_def openDraft_attempt_def falsy_def executeWithRetry.simps sleep_def
        setTimeout_delay_def TIMEOUT_MAX_def advance_def run_timers.simps new_CallbackServer_def Let_def)




text \<open>
  C6 (amended). A callback that finds its entry resolves the promise of that entry: the
  success route with \<open>success = True\<close> and the string-valued query parameters as data
  (parameters with an array or object value are left out); the error route with
  \<open>success = False\<close> and the \<open>error\<close> parameter, or \<open>Unknown error\<close> when that parameter is
  absent or is the empty string; the cancel route with \<open>success = False\<close> and
  \<open>User cancelled\<close>.
\<close>

theorem callbacks_resolve:
  assumes "consistent s" and "map_of (pendingRequests s) requestId = Some pending"
  shows "promises (snd (get_x_success requestId q s)) ! promise pending =
           Resolved \<lparr>success = True, data = Some (collect q []), error = None\<rparr> \<and>
         (distinct (map fst q) \<longrightarrow>
            (\<forall>k. map_of (collect q []) k =
                  (case map_of q k of Some (QString v) \<Rightarrow> Some v | _ \<Rightarrow> None))) \<and>
         promises (snd (get_x_error requestId q s)) ! promise pending =
           Resolved \<lparr>success = False, data = None,
                     error = Some (case map_of q ''error'' of
                                     None \<Rightarrow> QString ''Unknown error''
                                   | Some (QString v) \<Rightarrow>
                                       if v = [] then QString ''Unknown error'' else QString v
                                   | Some x \<Rightarrow> x)\<rparr> \<and>
         promises (snd (get_x_cancel requestId s)) ! promise pending =
           Resolved \<lparr>success = False, data = None, error = Some (QString ''User cancelled'')\<rparr>"
proof -
  have e: "error_or_unknown q =
      (case map_of q ''error'' of None \<Rightarrow> QString ''Unknown error''
       | Some (QString v) \<Rightarrow> if v = [] then QString ''Unknown error'' else QString v
       | Some x \<Rightarrow> x)"
    by (simp add: error_or_unknown_def split: option.splits query_value.splits)
  have d: "distinct (map fst q) \<longrightarrow>
            (\<forall>k. map_of (collect q []) k =
                  (case map_of q k of Some (QString v) \<Rightarrow> Some v | _ \<Rightarrow> None))"
    by (auto simp: map_of_collect split: option.splits query_value.splits)
  show ?thesis
    using assms(2) promises_callback[OF assms] e d
    by (simp add: get_x_success_def get_x_error_def get_x_cancel_def resolve_def Let_def)
qed

theorem callbacks_resolve_witness:
  "consistent (snd (registerRequest ''req-A'' new_CallbackServer)) \<and>
   map_of (pendingRequests (snd (registerRequest ''req-A'' new_CallbackServer))) ''req-A'' =
     Some \<lparr>promise = 0, timeout = 0\<rparr> \<and>
   promises (snd (get_x_success ''req-A'' [(''text'', QString ''hello''), (''uuid'', QString ''123'')]
                    (snd (registerRequest ''req-A'' new_CallbackServer)))) ! 0 =
     Resolved \<lparr>success = True, data = Some [(''text'', ''hello''), (''uuid'', ''123'')], error = None\<rparr> \<and>
   promises (snd (get_x_error ''req-A'' [(''error'', QString ''Something went wrong'')]
                    (snd (registerRequest ''req-A'' new_CallbackServer)))) ! 0 =
     Resolved \<lparr>success = False, data = None, error = Some (QString ''Something went wrong'')\<rparr> \<and>
   promises (snd (get_x_cancel ''req-A'' (snd (registerRequest ''req-A'' new_CallbackServer)))) ! 0 =
     Resolved \<lparr>success = False, data = None, error = Some (QString ''User cancelled'')\<rparr>"
proof -
  let ?s = "snd (registerRequest ''req-A'' new_CallbackServer)"
  have c: "consistent ?s"
    by (rule consistent_registerRequest[OF consistent_new])
  have m: "map_of (pendingRequests ?s) ''req-A'' = Some \<lparr>promise = 0, timeout = 0\<rparr>"
    by (simp add: registerRequest_def new_CallbackServer_def Let_def)
  from callbacks_resolve[OF c m, of "[(''text'', QString ''hello''), (''uuid'', QString ''123'')]"]
       callbacks_resolve[OF c m, of "[(''error'', QString ''Something went wrong'')]"]
       c m
  show ?thesis
    by simp
qed

text \<open>
  C6 as stated fails: with \<^verbatim>\<open>?error=\<close> the parameter is present and empty, and the
  promise is resolved with \<open>Unknown error\<close>, not with the parameter's value; with
  \<^verbatim>\<open>?tag=x&tag=y\<close> the parameter \<open>tag\<close> is an array, and the data of the success outcome
  do not carry it.
\<close>

theorem callback_outcome_counterexample:
  "promises (run [Register ''req-B'', GetError ''req-B'' [(''error'', QString [])]] new_CallbackServer) =
     [Resolved \<lparr>success = False, data = None, error = Some (QString ''Unknown error'')\<rparr>] \<and>
   promises (run [Register ''req-A'',
                  GetSuccess ''req-A'' [(''tag'', QArray [QString ''x'', QString ''y''])]]
               new_CallbackServer) =
     [Resolved \<lparr>success = True, data = Some [], error = None\<rparr>]"
  by (simp add: run_def registerRequest_def get_x_error_def get_x_success_def new_CallbackServer_def
        Let_def clearTimeout_def resolve_def settle_def error_or_unknown_def)

text \<open>
  C7. A request is registered in a consistent state: the table then holds its entry. If
  no live timer carried its identifier before and the identifier is not registered again,
  the entry is still there after events that take less than 30000 milliseconds and
  include neither a callback for the identifier nor \<open>stop\<close>; in any case the promise is
  pending then. Once 30000 milliseconds have passed, the promise is rejected with the
  error \<open>Request <id> timed out after 30000ms\<close>, and the table has no entry for the
  identifier.
\<close>

theorem request_times_out:
  assumes "consistent s"
    and "list_all (leaves_alone requestId) es"
    and "elapsed es < REQUEST_TIMEOUT"
    and "REQUEST_TIMEOUT \<le> elapsed es + d"
  shows "map_of (pendingRequests (snd (registerRequest requestId s))) requestId =
           Some \<lparr>promise = fst (registerRequest requestId s), timeout = next_timer s\<rparr> \<and>
         ((\<forall>t \<in> set (timers s). for_request t \<noteq> requestId) \<and> Register requestId \<notin> set es \<longrightarrow>
            map_of (pendingRequests (run es (snd (registerRequest requestId s)))) requestId =
              Some \<lparr>promise = fst (registerRequest requestId s), timeout = next_timer s\<rparr>) \<and>
         promises (run es (snd (registerRequest requestId s))) ! fst (registerRequest requestId s) =
           Pending \<and>
         promises (advance d (run es (snd (registerRequest requestId s)))) !
             fst (registerRequest requestId s) =
           Rejected (Error (''Request '' @ requestId @ '' timed out after 30000ms'')) \<and>
         map_of (pendingRequests (advance d (run es (snd (registerRequest requestId s))))) requestId =
           None"
proof -
  let ?p = "fst (registerRequest requestId s)"
  let ?r = "snd (registerRequest requestId s)"
  let ?T = "now s + REQUEST_TIMEOUT"
  let ?entry = "\<lparr>promise = ?p, timeout = next_timer s\<rparr>"
  have n: "now ?r = now s" and p: "?p = length (promises s)"
    by (simp_all add: registerRequest_def Let_def)
  have stored: "map_of (pendingRequests ?r) requestId = Some ?entry"
    by (simp add: registerRequest_def Let_def update_conv')
  have kept: "map_of (pendingRequests (run es ?r)) requestId = Some ?entry"
    if f: "\<forall>t \<in> set (timers s). for_request t \<noteq> requestId" and r: "Register requestId \<notin> set es"
  proof -
    from held_registerRequest_new[OF assms(1) f] p have "held ?p requestId ?entry ?T ?r"
      by simp
    from held_run[OF this assms(2) r] assms(3) n show ?thesis
      by (simp add: held_def)
  qed
  have a: "armed ?p requestId ?T ?r"
    by (rule armed_registerRequest_new[OF assms(1)])
  from armed_run[OF a assms(2)] assms(3) n
  have b: "armed ?p requestId ?T (run es ?r)" and m: "now (run es ?r) = now s + elapsed es"
    by simp_all
  from m assms(4) have "?T \<le> now (run es ?r) + d"
    by simp
  from armed_run_timers_after[OF b this] have "timed_out ?p requestId (advance d (run es ?r))"
    by (simp add: advance_def)
  with armedD(5)[OF b] stored kept show ?thesis
    by (simp add: timed_out_def string_of_REQUEST_TIMEOUT)
qed

theorem request_times_out_witness:
  "consistent new_CallbackServer \<and>
   list_all (leaves_alone ''req-D'') [Register ''x'', Elapse 10000, GetSuccess ''x'' []] \<and>
   elapsed [Register ''x'', Elapse 10000, GetSuccess ''x'' []] < REQUEST_TIMEOUT \<and>
   REQUEST_TIMEOUT \<le> elapsed [Register ''x'', Elapse 10000, GetSuccess ''x'' []] + 20000 \<and>
   map_of (pendingRequests (snd (registerRequest ''req-D'' new_CallbackServer))) ''req-D'' =
     Some \<lparr>promise = 0, timeout = 0\<rparr> \<and>
   map_of (pendingRequests (run [Register ''x'', Elapse 10000, GetSuccess ''x'' []]
                              (snd (registerRequest ''req-D'' new_CallbackServer)))) ''req-D'' =
     Some \<lparr>promise = 0, timeout = 0\<rparr> \<and>
   promises (advance 20000 (run [Register ''x'', Elapse 10000, GetSuccess ''x'' []]
                              (snd (registerRequest ''req-D'' new_CallbackServer)))) ! 0 =
     Rejected (Error ''Request req-D timed out after 30000ms'') \<and>
   map_of (pendingRequests (advance 20000 (run [Register ''x'', Elapse 10000, GetSuccess ''x'' []]
                              (snd (registerRequest ''req-D'' new_CallbackServer))))) ''req-D'' = None"
proof -
  have l: "list_all (leaves_alone ''req-D'') [Register ''x'', Elapse 10000, GetSuccess ''x'' []]"
    by simp
  have e: "elapsed [Register ''x'', Elapse 10000, GetSuccess ''x'' []] < REQUEST_TIMEOUT"
    "REQUEST_TIMEOUT \<le> elapsed [Register ''x'', Elapse 10000, GetSuccess ''x'' []] + 20000"
    by (simp_all add: elapsed_def REQUEST_TIMEOUT_def)
  have p: "fst (registerRequest ''req-D'' new_CallbackServer) = 0"
    "next_timer new_CallbackServer = 0" "timers new_CallbackServer = []"
    by (simp_all add: registerRequest_def new_CallbackServer_def Let_def)
  from request_times_out[OF consistent_new l e] p consistent_new l e show ?thesis
    by simp
qed

text \<open>
  C8 (amended). Events happen to a new server, started or not, and no identifier is
  registered while it has an entry in the table. Then \<open>stop\<close> rejects the promise of every
  entry of the table with \<open>Server shutting down\<close>, empties the table and leaves no live
  timer. With an empty table it settles nothing, and it returns normally unless the
  listener is already closed. (In any consistent state \<open>stop\<close> rejects the promise of every
  entry and cancels the timers of the entries, and no others.)
\<close>

theorem stop_rejects_and_clears:
  assumes "init = new_CallbackServer \<or> init = snd (start got listen_error new_CallbackServer)"
    and "registers_fresh es init"
  shows "(\<forall>(rid, pr) \<in> set (pendingRequests (run es init)).
            promises (snd (stop (run es init))) ! promise pr =
              Rejected (Error ''Server shutting down'')) \<and>
         pendingRequests (snd (stop (run es init))) = [] \<and>
         timers (snd (stop (run es init))) = [] \<and>
         (pendingRequests (run es init) = [] \<longrightarrow>
            promises (snd (stop (run es init))) = promises (run es init) \<and>
            calls (snd (stop (run es init))) = calls (run es init) \<and>
            (server (run es init) \<noteq> Closed \<longrightarrow> fst (stop (run es init)) = Inr ())) \<and>
         (consistent s \<longrightarrow>
            (\<forall>(rid, pr) \<in> set (pendingRequests s).
               promises (snd (stop s)) ! promise pr = Rejected (Error ''Server shutting down'')) \<and>
            timers (snd (stop s)) =
              filter (\<lambda>t. tid t \<notin> (timeout \<circ> snd) ` set (pendingRequests s)) (timers s))"
proof -
  have general: "(\<forall>(rid, pr) \<in> set (pendingRequests x).
               promises (snd (stop x)) ! promise pr = Rejected (Error ''Server shutting down'')) \<and>
            timers (snd (stop x)) =
              filter (\<lambda>t. tid t \<notin> (timeout \<circ> snd) ` set (pendingRequests x)) (timers x)"
    if con: "consistent x" for x
  proof -
    from con have ok: "timers_ok x" and tab: "table_ok x"
      by (simp_all add: consistent_def)
    let ?f = "fold stop_entry (pendingRequests x) x"
    have P: "promises (snd (stop x)) = promises ?f" and T: "timers (snd (stop x)) = timers ?f"
      by (simp_all add: stop_def Let_def split: listener.splits)
    have "promises (snd (stop x)) ! promise pr = Rejected (Error ''Server shutting down'')"
      if m: "(rid, pr) \<in> set (pendingRequests x)" for rid pr
    proof -
      from tab m obtain t where t: "t \<in> set (timers x)" "for_promise t = promise pr"
        by (auto simp: table_ok_def)
      from timers_okD[OF ok t(1)] t(2)
      have "promise pr < length (promises x)" "promises x ! promise pr = Pending"
        by simp_all
      from pending_rejected_stop_entries[OF m this] show ?thesis
        unfolding P .
    qed
    moreover have "timers (snd (stop x)) =
           filter (\<lambda>t. tid t \<notin> (timeout \<circ> snd) ` set (pendingRequests x)) (timers x)"
      unfolding T by (rule timers_stop_entries)
    ultimately show ?thesis by blast
  qed
  let ?s = "run es init"
  from assms(1) have ci: "consistent init" and ni: "no_orphans init"
    by (auto simp: consistent_new consistent_start no_orphans_new no_orphans_start)
  have c: "consistent ?s"
    by (rule consistent_run[OF ci])
  have n: "no_orphans ?s"
    by (rule no_orphans_run[OF ci ni assms(2)])
  have 2: "pendingRequests (snd (stop ?s)) = []"
    by (simp add: stop_def Let_def split: listener.splits)
  have 3: "timers (snd (stop ?s)) = []"
    by (rule no_orphans_stop(1)[OF n])
  have 4: "pendingRequests ?s = [] \<longrightarrow>
            promises (snd (stop ?s)) = promises ?s \<and> calls (snd (stop ?s)) = calls ?s \<and>
            (server ?s \<noteq> Closed \<longrightarrow> fst (stop ?s) = Inr ())"
    by (auto simp: stop_def Let_def split: listener.splits)
  from general[OF c] general[of s] 2 3 4 show ?thesis
    by blast
qed


theorem stop_rejects_and_clears_witness:
  "registers_fresh [Register ''req-E''] (snd (start (Inr 3000) None new_CallbackServer)) \<and>
   promises (snd (stop (run [Register ''req-E''] (snd (start (Inr 3000) None new_CallbackServer))))) =
     [Rejected (Error ''Server shutting down'')] \<and>
   pendingRequests (snd (stop (run [Register ''req-E''] (snd (start (Inr 3000) None new_CallbackServer))))) = [] \<and>
   timers (snd (stop (run [Register ''req-E''] (snd (start (Inr 3000) None new_CallbackServer))))) = [] \<and>
   fst (stop (run [] (snd (start (Inr 3000) None new_CallbackServer)))) = Inr ()"
proof -
  let ?init = "snd (start (Inr 3000) None new_CallbackServer)"
  let ?es = "[Register ''req-E'']"
  have i: "?init = new_CallbackServer \<or> ?init = snd (start (Inr 3000) None new_CallbackServer)"
    by simp
  have f: "registers_fresh ?es ?init" "registers_fresh [] ?init"
    by (simp_all add: start_def new_CallbackServer_def Let_def)
  have e: "pendingRequests (run ?es ?init) = [(''req-E'', \<lparr>promise = 0, timeout = 0\<rparr>)]"
    "length (promises (run ?es ?init)) = 1"
    "pendingRequests (run [] ?init) = []" "server (run [] ?init) = Listening"
    by (simp_all add: run_def registerRequest_def start_def new_CallbackServer_def Let_def)
  have l: "length (promises (snd (stop (run ?es ?init)))) = 1"
    using e(2) by (simp add: stop_def Let_def split: listener.splits)
  from stop_rejects_and_clears[OF i f(1), of new_CallbackServer] e have
    "promises (snd (stop (run ?es ?init))) ! 0 = Rejected (Error ''Server shutting down'')"
    "pendingRequests (snd (stop (run ?es ?init))) = []" "timers (snd (stop (run ?es ?init))) = []"
    by auto
  moreover from this(1) l
  have "promises (snd (stop (run ?es ?init))) = [Rejected (Error ''Server shutting down'')]"
    by (cases "promises (snd (stop (run ?es ?init)))") auto
  moreover from stop_rejects_and_clears[OF i f(2), of new_CallbackServer] e(3,4)
  have "fst (stop (run [] ?init)) = Inr ()"
    by simp
  ultimately show ?thesis
    using f(1) by simp
qed

text \<open>
  C8 as stated fails: a second \<open>stop\<close>, called when no request is outstanding, fails
  with the error of a server that is not running; and after two registrations of \<open>a\<close>,
  \<open>stop\<close> cancels the timer of the entry it finds, the second, so that the timer of the
  first registration stays live and the first promise stays pending.
\<close>

theorem stop_counterexample:
  "pendingRequests (snd (stop (snd (start (Inr 3000) None new_CallbackServer)))) = [] \<and>
   fst (stop (snd (stop (snd (start (Inr 3000) None new_CallbackServer))))) =
     Inl (SystemError ''ERR_SERVER_NOT_RUNNING'') \<and>
   timers (snd (stop (run [Register ''a'', Register ''a''] new_CallbackServer))) =
     [\<lparr>tid = 0, due = 30000, for_request = ''a'', for_promise = 0\<rparr>] \<and>
   promises (snd (stop (run [Register ''a'', Register ''a''] new_CallbackServer))) =
     [Pending, Rejected (Error ''Server shutting down'')]"
  by (simp add: run_def registerRequest_def stop_def stop_entry_def reject_def settle_def start_def
        clearTimeout_def new_CallbackServer_def REQUEST_TIMEOUT_def Let_def)

text \<open>
  C9. Once \<open>start\<close> has returned the bound port \<open>p\<close>, \<open>getCallbackUrls\<close> returns exactly
  the URLs \<^verbatim>\<open>http://localhost:p/x-success/id\<close>, \<^verbatim>\<open>http://localhost:p/x-error/id\<close> and
  \<^verbatim>\<open>http://localhost:p/x-cancel/id\<close> for every identifier. It reads the port only: any
  state with that port gives the same URLs, whatever its table holds, so no registration
  is needed; being a function of the state to the URLs, it changes nothing.
\<close>

theorem getCallbackUrls_after_start:
  assumes "start (Inr p) listen_error s = (Inr q, s')"
  shows "q = p \<and>
    getCallbackUrls s' requestId =
      \<lparr>success_url = ''http://localhost:'' @ string_of_nat p @ ''/x-success/'' @ requestId,
       error_url = ''http://localhost:'' @ string_of_nat p @ ''/x-error/'' @ requestId,
       cancel_url = ''http://localhost:'' @ string_of_nat p @ ''/x-cancel/'' @ requestId\<rparr> \<and>
    (\<forall>s''. port s'' = p \<longrightarrow> getCallbackUrls s'' requestId = getCallbackUrls s' requestId)"
  using assms
  by (auto simp: start_def getCallbackUrls_def Let_def split: option.splits)

theorem getCallbackUrls_after_start_witness:
  "start (Inr 51234) None new_CallbackServer =
     (Inr 51234, new_CallbackServer\<lparr>port := 51234, server := Listening\<rparr>) \<and>
   getCallbackUrls (new_CallbackServer\<lparr>port := 51234, server := Listening\<rparr>) ''req-A'' =
     \<lparr>success_url = ''http://localhost:51234/x-success/req-A'',
      error_url = ''http://localhost:51234/x-error/req-A'',
      cancel_url = ''http://localhost:51234/x-cancel/req-A''\<rparr>"
proof -
  have st: "start (Inr 51234) None new_CallbackServer =
     (Inr 51234, new_CallbackServer\<lparr>port := 51234, server := Listening\<rparr>)"
    by (simp add: start_def Let_def)
  have n: "string_of_nat 51234 = ''51234''"
    by (simp add: string_of_nat.simps)
  from getCallbackUrls_after_start[OF st, of "''req-A''"] st n show ?thesis
    by simp
qed

text \<open>
  C10. An attempt of \<open>getDraft\<close> whose \<open>openUrl\<close> returns data without a non-empty \<open>text\<close>
  throws \<open>No content returned from Drafts\<close>. That error is retried like any other: when no
  request is outstanding at the start and the application answers every launch in time
  with a success callback that has no non-empty \<open>text\<close>, \<open>getDraft\<close> opens
  \<open>maxRetries + 1\<close> URLs, one for each attempt, and then fails with that error.
\<close>

theorem getDraft_no_content_retried:
  assumes q: "quiescent w"
    and a: "\<forall>n url. \<exists>d qry. app w n url = Calls d (Success qry) \<and> d < REQUEST_TIMEOUT \<and>
                 falsy (map_of (collect qry []) ''text'')"
    and n: "0 \<le> maxRetries c"
  shows "(\<forall>v response v2.
            openUrl (fst (fst (buildUrl ''get'' [(''uuid'', PString uid)] v)))
              (snd (fst (buildUrl ''get'' [(''uuid'', PString uid)] v)))
              (snd (buildUrl ''get'' [(''uuid'', PString uid)] v)) = Some (Inr response, v2) \<longrightarrow>
            falsy (map_of response ''text'') \<longrightarrow>
            getDraft_attempt uid v = Some (Inl (Error ''No content returned from Drafts''), v2)) \<and>
         (\<exists>w' tr. getDraft c uid w = Some (Inl (Error ''No content returned from Drafts''), w', tr) \<and>
            length tr = nat (maxRetries c) + 1 \<and>
            delays_at_least (setTimeout_delay (retryDelay c)) tr \<and>
            length (opened w') = length (opened w) + nat (maxRetries c) + 1)"
proof -
  let ?P = "\<lambda>v. quiescent v \<and> app v = app w"
  let ?E = "Error ''No content returned from Drafts''"
  let ?n = "nat (maxRetries c)"
  have fails: "\<exists>e v'. getDraft_attempt uid v = Some (Inl e, v') \<and> ?P v' \<and> e = ?E \<and>
                 length (opened v') = length (opened v) + 1" if P: "?P v" for v
  proof -
    let ?b = "buildUrl ''get'' [(''uuid'', PString uid)] v"
    let ?nxt = "snd ?b"
    from a P obtain d qry where r: "app ?nxt (length (opened ?nxt)) (fst (fst ?b)) = Calls d (Success qry)"
      "d < REQUEST_TIMEOUT" "falsy (map_of (collect qry []) ''text'')"
      by (metis buildUrl_fields(3))
    from P have "quiescent ?nxt"
      by (simp add: quiescent_def)
    from openUrl_success_quiescent[OF this r(1,2), of "snd (fst ?b)"] obtain v' where
      v': "openUrl (fst (fst ?b)) (snd (fst ?b)) ?nxt = Some (Inr (collect qry []), v')"
        "quiescent v'" "opened v' = opened ?nxt @ [fst (fst ?b)]" "app v' = app ?nxt"
      by blast
    from getDraft_attempt_no_text[OF v'(1) r(3)] v'(2,3,4) P show ?thesis
      by simp
  qed
  have "\<exists>e w' tr. executeWithRetry c (getDraft_attempt uid) (int ?n) w = Some (Inl e, w', tr) \<and>
           length tr = ?n + 1 \<and> delays_at_least (setTimeout_delay (retryDelay c)) tr \<and>
           started (hd tr) = now (callbackServer w) \<and>
           finished (last tr) = now (callbackServer w') \<and>
           failure (last tr) = Some e \<and>
           (\<exists>w1. ?P w1 \<and> getDraft_attempt uid w1 = Some (Inl e, w')) \<and>
           ?P w' \<and> e = ?E \<and>
           (\<lambda>v. length (opened v)) w' = (\<lambda>v. length (opened v)) w + 1 * (?n + 1) + 0 * ?n"
  proof (rule executeWithRetry_all_fail[where P = ?P and Q = "\<lambda>e. e = ?E"])
    show "\<exists>e w'. getDraft_attempt uid v = Some (Inl e, w') \<and> ?P w' \<and> e = ?E \<and>
            length (opened w') = length (opened v) + 1" if "?P v" for v
      using fails[OF that] .
    show "?P (sleep (retryDelay c) v) \<and>
            length (opened (sleep (retryDelay c) v)) = length (opened v) + 0" if "?P v" for v
      using that quiescent_sleep[of v] by simp
    show "?P w" using q by simp
  qed
  with n have 2: "\<exists>w' tr. getDraft c uid w = Some (Inl ?E, w', tr) \<and>
            length tr = ?n + 1 \<and> delays_at_least (setTimeout_delay (retryDelay c)) tr \<and>
            length (opened w') = length (opened w) + ?n + 1"
    by (auto simp: getDraft_def)
  have 1: "\<forall>v response v2.
            openUrl (fst (fst (buildUrl ''get'' [(''uuid'', PString uid)] v)))
              (snd (fst (buildUrl ''get'' [(''uuid'', PString uid)] v)))
              (snd (buildUrl ''get'' [(''uuid'', PString uid)] v)) = Some (Inr response, v2) \<longrightarrow>
            falsy (map_of response ''text'') \<longrightarrow>
            getDraft_attempt uid v = Some (Inl ?E, v2)"
    using getDraft_attempt_no_text by blast
  from 1 2 show ?thesis
    by blast
qed

theorem getDraft_no_content_retried_witness:
  "quiescent \<lparr>callbackServer = new_CallbackServer\<lparr>port := 3000\<rparr>, randomUUID = (\<lambda>n. ''id''),
              minted = 0, app = (\<lambda>n url. Calls 5 (Success [(''title'', QString ''t'')])),
              opened = []\<rparr> \<and>
   (\<exists>w' tr. getDraft \<lparr>maxRetries = 1, retryDelay = 100\<rparr> ''u1''
               \<lparr>callbackServer = new_CallbackServer\<lparr>port := 3000\<rparr>, randomUUID = (\<lambda>n. ''id''),
                minted = 0, app = (\<lambda>n url. Calls 5 (Success [(''title'', QString ''t'')])),
                opened = []\<rparr> =
             Some (Inl (Error ''No content returned from Drafts''), w', tr) \<and>
             length tr = 2 \<and> length (opened w') = 2)"
proof -
  let ?w = "\<lparr>callbackServer = new_CallbackServer\<lparr>port := 3000\<rparr>, randomUUID = (\<lambda>n. ''id''),
              minted = 0, app = (\<lambda>n url. Calls 5 (Success [(''title'', QString ''t'')])),
              opened = []\<rparr>"
  have q: "quiescent ?w"
    by (simp add: quiescent_def new_CallbackServer_def)
  have a: "\<forall>n url. \<exists>d qry. app ?w n url = Calls d (Success qry) \<and> d < REQUEST_TIMEOUT \<and>
                 falsy (map_of (collect qry []) ''text'')"
    by (simp add: REQUEST_TIMEOUT_def falsy_def)
  have n: "0 \<le> maxRetries \<lparr>maxRetries = 1, retryDelay = 100\<rparr>"
    by simp
  from getDraft_no_content_retried[OF q a n, of "''u1''"] q show ?thesis
    by (auto simp: numeral_2_eq_2)
qed

end
